theory Spec2Isabelle
  imports Main "HOL-Library.Word"
begin

unbundle bit_operations_syntax

section \<open>The boot splash of PiFinder: SSD1351 panel driver and scanner animation\<close>

text \<open>
  A shallow embedding of \<^verbatim>\<open>nixos/pkgs/boot-splash.c\<close>. Every function of the C file
  that talks to the hardware is modelled by the list of system calls it issues, in
  order; C \<^verbatim>\<open>int\<close> values are mathematical integers with the 32-bit range checked
  where the arithmetic could leave it; \<^verbatim>\<open>uint8_t\<close> and \<^verbatim>\<open>uint16_t\<close> are words.
\<close>

subsection \<open>Constants and data\<close>

type_synonym u8 = "8 word"
type_synonym u16 = "16 word"

definition WIDTH :: nat where "WIDTH = 128"
definition HEIGHT :: nat where "HEIGHT = 128"
definition SPI_SPEED :: nat where "SPI_SPEED = 40000000"
definition COL_BLACK :: u16 where "COL_BLACK = 0x0000"
definition COL_RED :: u16 where "COL_RED = 0x001F"

text \<open>The two GPIO output lines: \<^verbatim>\<open>dc_req\<close> (GPIO 24) and \<^verbatim>\<open>rst_req\<close> (GPIO 25).\<close>

datatype line = DC | RST

text \<open>
  What the process does to the outside world. \<open>SpiXfer\<close> is one
  \<^verbatim>\<open>ioctl(spi_fd, SPI_IOC_MESSAGE(1), &tr)\<close> with the bytes of \<^verbatim>\<open>tr.tx_buf\<close>
  (always at \<^verbatim>\<open>SPI_SPEED\<close>, 8 bits per word); \<open>GpioSet\<close> is one
  \<^verbatim>\<open>GPIO_V2_LINE_SET_VALUES_IOCTL\<close>; \<open>Msleep\<close> one \<^verbatim>\<open>nanosleep\<close>; \<open>SpiConfig\<close> one of
  the three configuration requests of \<^verbatim>\<open>hw_init\<close>, with its value; \<open>Perror\<close> one
  \<^verbatim>\<open>perror\<close> with its tag and \<open>Stderr\<close> one \<^verbatim>\<open>fprintf(stderr, ...)\<close>; \<open>Close\<close> one
  \<^verbatim>\<open>close\<close> of a descriptor.
\<close>

datatype event =
    GpioSet line bool
  | SpiXfer "u8 list"
  | Msleep int
  | SpiConfig string nat
  | Perror string
  | Stderr string
  | Close int

subsection \<open>SPI transport\<close>

text \<open>The local constant \<^verbatim>\<open>chunk_size\<close> of \<^verbatim>\<open>spi_write\<close>.\<close>

definition chunk_size :: nat where "chunk_size = 4096"

text \<open>
  \<^verbatim>\<open>spi_write(data, len)\<close>: the pointer and the length are the list; each round of
  the loop sends the first \<open>this_len\<close> bytes and advances the pointer.
\<close>

function spi_write :: "u8 list \<Rightarrow> event list" where
  "spi_write data =
     (if length data > 0
      then (let this_len = (if length data > chunk_size then chunk_size else length data)
            in SpiXfer (take this_len data) # spi_write (drop this_len data))
      else [])"
  by pat_completeness auto
termination
  by (relation "measure length") (auto simp add: chunk_size_def)

declare spi_write.simps [simp del]

text \<open>The payloads of the SPI transfers of a trace, in issue order.\<close>

fun transfers :: "event list \<Rightarrow> u8 list list" where
  "transfers [] = []"
| "transfers (SpiXfer bs # es) = bs # transfers es"
| "transfers (e # es) = transfers es"

lemma chunk_size_pos: "0 < chunk_size"
  by (simp add: chunk_size_def)

lemma spi_write_Nil: "spi_write [] = []"
  by (simp add: spi_write.simps)

lemma spi_write_short:
  "data \<noteq> [] \<Longrightarrow> length data \<le> chunk_size \<Longrightarrow> spi_write data = [SpiXfer data]"
  by (subst spi_write.simps) (simp add: spi_write_Nil)

lemma spi_write_long:
  "chunk_size < length data \<Longrightarrow>
     spi_write data = SpiXfer (take chunk_size data) # spi_write (drop chunk_size data)"
  by (subst spi_write.simps) (auto simp add: Let_def)

lemma spi_write_cases:
  obtains "data = []"
  | "data \<noteq> []" "length data \<le> chunk_size"
  | "chunk_size < length data" "data \<noteq> []"
      "spi_write data = SpiXfer (take chunk_size data) # spi_write (drop chunk_size data)"
proof -
  have "chunk_size < length data \<Longrightarrow> data \<noteq> []"
    by (cases data) simp_all
  then show ?thesis
    using that spi_write_long [of data] by (cases "length data \<le> chunk_size") auto
qed

lemma ceil_div_one:
  fixes n c :: nat
  assumes "0 < n" and "n \<le> c"
  shows "(n + (c - 1)) div c = 1"
proof (rule div_nat_eqI)
  show "c * 1 \<le> n + (c - 1)" using assms by arith
  show "n + (c - 1) < c * Suc 1" using assms by arith
qed

lemma spi_write_only_transfers:
  "spi_write data = map SpiXfer (transfers (spi_write data))"
proof (induction data rule: spi_write.induct)
  case (1 data)
  show ?case
  proof (cases data rule: spi_write_cases)
    case 1
    then show ?thesis by (simp add: spi_write_Nil)
  next
    case 2
    then show ?thesis by (simp add: spi_write_short)
  next
    case 3
    with "1.IH" [of chunk_size] show ?thesis by simp
  qed
qed

lemma concat_transfers_spi_write: "concat (transfers (spi_write data)) = data"
proof (induction data rule: spi_write.induct)
  case (1 data)
  show ?case
  proof (cases data rule: spi_write_cases)
    case 1
    then show ?thesis by (simp add: spi_write_Nil)
  next
    case 2
    then show ?thesis by (simp add: spi_write_short)
  next
    case 3
    with "1.IH" [of chunk_size] show ?thesis by simp
  qed
qed

lemma length_transfers_spi_write:
  "length (transfers (spi_write data)) = (length data + (chunk_size - 1)) div chunk_size"
proof (induction data rule: spi_write.induct)
  case (1 data)
  show ?case
  proof (cases data rule: spi_write_cases)
    case 1
    then show ?thesis using chunk_size_pos by (simp add: spi_write_Nil)
  next
    case 2
    then have "0 < length data" by simp
    with 2 have "(length data + (chunk_size - 1)) div chunk_size = 1"
      by (simp only: ceil_div_one)
    with 2 show ?thesis by (simp add: spi_write_short)
  next
    case 3
    have "length data + (chunk_size - 1) = (length data - chunk_size + (chunk_size - 1)) + chunk_size"
      using 3(1) by simp
    then have "(length data + (chunk_size - 1)) div chunk_size =
        Suc ((length data - chunk_size + (chunk_size - 1)) div chunk_size)"
      using chunk_size_pos by (simp only: div_add_self2)
    with 3 "1.IH" [of chunk_size] show ?thesis by simp
  qed
qed

lemma transfers_spi_write_bounds:
  "c \<in> set (transfers (spi_write data)) \<Longrightarrow> 0 < length c \<and> length c \<le> chunk_size"
proof (induction data rule: spi_write.induct)
  case (1 data)
  show ?case
  proof (cases data rule: spi_write_cases)
    case 1
    with "1.prems" show ?thesis by (simp add: spi_write_Nil)
  next
    case 2
    with "1.prems" show ?thesis by (simp add: spi_write_short)
  next
    case 3
    with "1.prems" "1.IH" [of chunk_size] chunk_size_pos show ?thesis by auto
  qed
qed

lemma last_transfers_spi_write:
  "data \<noteq> [] \<Longrightarrow>
     length (last (transfers (spi_write data))) =
       (if length data mod chunk_size = 0 then chunk_size else length data mod chunk_size)"
proof (induction data rule: spi_write.induct)
  case (1 data)
  show ?case
  proof (cases data rule: spi_write_cases)
    case 1
    with "1.prems" show ?thesis by simp
  next
    case 2
    then have "length data = chunk_size \<or> length data < chunk_size" by linarith
    with 2 show ?thesis by (auto simp add: spi_write_short)
  next
    case 3
    then have ne: "drop chunk_size data \<noteq> []" by simp
    then have "spi_write (drop chunk_size data) \<noteq> []"
      by (subst spi_write.simps) simp
    then have tne: "transfers (spi_write (drop chunk_size data)) \<noteq> []"
      using spi_write_only_transfers [of "drop chunk_size data"] by auto
    have m: "(length data - chunk_size) mod chunk_size = length data mod chunk_size"
      using 3(1) by (simp add: le_mod_geq)
    from 3 ne tne m "1.IH" [of chunk_size] show ?thesis by simp
  qed
qed

text \<open>
  Claim C3. For a payload of any length \<open>L\<close>, \<^verbatim>\<open>spi_write\<close> issues nothing but SPI
  transfers, exactly \<open>\<lceil>L / 4096\<rceil>\<close> of them, each of at most 4096 bytes; their payloads,
  concatenated in issue order, are the input (no gap, no overlap); and the last transfer
  carries \<open>L mod 4096\<close> bytes, or 4096 when \<open>L\<close> is a nonzero multiple of 4096.
\<close>

theorem spi_write_chunks:
  "spi_write data = map SpiXfer (transfers (spi_write data))
   \<and> length (transfers (spi_write data)) = (length data + 4095) div 4096
   \<and> (\<forall>c \<in> set (transfers (spi_write data)). length c \<le> 4096)
   \<and> concat (transfers (spi_write data)) = data
   \<and> (data \<noteq> [] \<longrightarrow>
        length (last (transfers (spi_write data))) =
          (if length data mod 4096 = 0 then 4096 else length data mod 4096))"
proof (intro conjI)
  show "spi_write data = map SpiXfer (transfers (spi_write data))"
    by (rule spi_write_only_transfers)
  show "length (transfers (spi_write data)) = (length data + 4095) div 4096"
    using length_transfers_spi_write [of data] by (simp add: chunk_size_def)
  show "\<forall>c \<in> set (transfers (spi_write data)). length c \<le> 4096"
    using transfers_spi_write_bounds [of _ data] by (simp add: chunk_size_def)
  show "concat (transfers (spi_write data)) = data"
    by (rule concat_transfers_spi_write)
  show "data \<noteq> [] \<longrightarrow>
        length (last (transfers (spi_write data))) =
          (if length data mod 4096 = 0 then 4096 else length data mod 4096)"
    using last_transfers_spi_write [of data] by (simp add: chunk_size_def)
qed

theorem spi_write_chunks_witness:
  "length (transfers (spi_write (replicate 5000 (7::u8)))) = 2
   \<and> length (hd (transfers (spi_write (replicate 5000 (7::u8))))) \<le> 4096
   \<and> concat (transfers (spi_write (replicate 5000 (7::u8)))) = replicate 5000 7
   \<and> length (last (transfers (spi_write (replicate 5000 (7::u8))))) = 904"
proof -
  let ?ts = "transfers (spi_write (replicate 5000 (7::u8)))"
  have n: "length ?ts = 2"
    and b: "\<forall>c \<in> set ?ts. length c \<le> 4096"
    and c: "concat ?ts = replicate 5000 7"
    and l: "length (last ?ts) = 904"
    using spi_write_chunks [of "replicate 5000 (7::u8)"] by simp_all
  from n have "?ts \<noteq> []" by auto
  then have "hd ?ts \<in> set ?ts" by (rule hd_in_set)
  with b have "length (hd ?ts) \<le> 4096" by blast
  with n c l show ?thesis by blast
qed

subsection \<open>Panel driver: command and data framing\<close>

text \<open>\<^verbatim>\<open>gpio_set(req, value)\<close> drives the line to \<^verbatim>\<open>value ? 1 : 0\<close>.\<close>

definition gpio_set :: "line \<Rightarrow> int \<Rightarrow> event list" where
  "gpio_set req v = [GpioSet req (v \<noteq> 0)]"

definition msleep :: "int \<Rightarrow> event list" where
  "msleep ms = [Msleep ms]"

definition ssd1351_cmd :: "u8 \<Rightarrow> event list" where
  "ssd1351_cmd cmd = gpio_set DC 0 @ spi_write [cmd]"

definition ssd1351_data :: "u8 list \<Rightarrow> event list" where
  "ssd1351_data data = gpio_set DC 1 @ spi_write data"

text \<open>
  What the panel receives: every byte of an SPI transfer is a command byte when the
  data/command line is low and a data byte when it is high. \<open>wire_bytes dc es\<close> reads
  the trace \<open>es\<close> that way, \<open>dc\<close> being the level of the line before the trace.
\<close>

datatype wire = Cmd u8 | Dat u8

fun wire_bytes :: "bool \<Rightarrow> event list \<Rightarrow> wire list" where
  "wire_bytes dc [] = []"
| "wire_bytes dc (GpioSet DC v # es) = wire_bytes v es"
| "wire_bytes dc (SpiXfer bs # es) = map (if dc then Dat else Cmd) bs @ wire_bytes dc es"
| "wire_bytes dc (e # es) = wire_bytes dc es"

text \<open>
  The wire bytes grouped as the controller reads them: each command byte with the
  parameter bytes that follow it, up to the next command.
\<close>

fun params :: "wire list \<Rightarrow> u8 list" where
  "params (Dat d # ws) = d # params ws"
| "params ws = []"

fun packets :: "wire list \<Rightarrow> (u8 \<times> u8 list) list" where
  "packets [] = []"
| "packets (Cmd c # ws) = (c, params ws) # packets ws"
| "packets (Dat d # ws) = packets ws"

subsection \<open>Panel driver: initialisation\<close>

definition ssd1351_init :: "event list" where
  "ssd1351_init =
     gpio_set RST 1 @ msleep 10 @
     gpio_set RST 0 @ msleep 10 @
     gpio_set RST 1 @ msleep 10 @
     ssd1351_cmd 0xFD @ ssd1351_data [0x12] @
     ssd1351_cmd 0xFD @ ssd1351_data [0xB1] @
     ssd1351_cmd 0xAE @
     ssd1351_cmd 0xB3 @ ssd1351_data [0xF1] @
     ssd1351_cmd 0xCA @ ssd1351_data [0x7F] @
     ssd1351_cmd 0x15 @ ssd1351_data [0x00, 0x7F] @
     ssd1351_cmd 0x75 @ ssd1351_data [0x00, 0x7F] @
     ssd1351_cmd 0xA0 @ ssd1351_data [0x74] @
     ssd1351_cmd 0xA1 @ ssd1351_data [0x00] @
     ssd1351_cmd 0xA2 @ ssd1351_data [0x00] @
     ssd1351_cmd 0xB5 @ ssd1351_data [0x00] @
     ssd1351_cmd 0xAB @ ssd1351_data [0x01] @
     ssd1351_cmd 0xB1 @ ssd1351_data [0x32] @
     ssd1351_cmd 0xB4 @ ssd1351_data [0xA0, 0xB5, 0x55] @
     ssd1351_cmd 0xBE @ ssd1351_data [0x05] @
     ssd1351_cmd 0xC7 @ ssd1351_data [0x0F] @
     ssd1351_cmd 0xB6 @ ssd1351_data [0x01] @
     ssd1351_cmd 0xA6 @
     ssd1351_cmd 0xC1 @ ssd1351_data [0xFF, 0xFF, 0xFF]"

text \<open>
  The command sequence as the specification lists it, with the opcodes the comments of
  \<^verbatim>\<open>ssd1351_init\<close> give to those names: two unlocks (\<open>0xFD\<close>), clock divider (\<open>0xB3\<close>),
  mux ratio (\<open>0xCA\<close>), column window (\<open>0x15\<close>), row window (\<open>0x75\<close>), colour depth and
  order (\<open>0xA0\<close>), start line (\<open>0xA1\<close>), display offset (\<open>0xA2\<close>), GPIO mode (\<open>0xB5\<close>),
  function select (\<open>0xAB\<close>), pre-charge, both stages consecutively (\<open>0xB1\<close>, \<open>0xB6\<close>),
  segment low voltage (\<open>0xB4\<close>), VCOMH (\<open>0xBE\<close>), master contrast (\<open>0xC7\<close>), normal
  display (\<open>0xA6\<close>), per-channel contrast (\<open>0xC1\<close>).
\<close>

definition spec_init_commands :: "u8 list" where
  "spec_init_commands =
     [0xFD, 0xFD, 0xB3, 0xCA, 0x15, 0x75, 0xA0, 0xA1, 0xA2, 0xB5, 0xAB,
      0xB1, 0xB6, 0xB4, 0xBE, 0xC7, 0xA6, 0xC1]"

text \<open>The hardware reset that opens \<^verbatim>\<open>ssd1351_init\<close>: reset high, low, high, 10 ms each.\<close>

definition hardware_reset :: "event list" where
  "hardware_reset =
     [GpioSet RST True, Msleep 10, GpioSet RST False, Msleep 10, GpioSet RST True, Msleep 10]"

subsection \<open>Panel driver: flushing the frame buffer\<close>

text \<open>
  The loop of \<^verbatim>\<open>ssd1351_flush\<close> that fills \<^verbatim>\<open>buf\<close>: round \<open>i\<close> stores
  \<^verbatim>\<open>framebuf[i] >> 8\<close> at \<open>2 * i\<close> and \<^verbatim>\<open>framebuf[i] & 0xFF\<close> at \<open>2 * i + 1\<close>, both
  truncated to \<^verbatim>\<open>uint8_t\<close>.
\<close>

function flush_loop :: "nat \<Rightarrow> u16 list \<Rightarrow> u8 list \<Rightarrow> u8 list" where
  "flush_loop i framebuf buf =
     (if i < WIDTH * HEIGHT
      then flush_loop (i + 1) framebuf
             (buf[i * 2 := ucast (drop_bit 8 (framebuf ! i)),
                  i * 2 + 1 := ucast (framebuf ! i AND 0xFF)])
      else buf)"
  by pat_completeness auto
termination
  by (relation "measure (\<lambda>(i, framebuf, buf). WIDTH * HEIGHT - i)") auto

declare flush_loop.simps [simp del]

text \<open>
  \<^verbatim>\<open>ssd1351_flush\<close> reads the global \<^verbatim>\<open>framebuf\<close>, here its argument. The local
  \<^verbatim>\<open>buf\<close> is uninitialised in C; the loop overwrites all of it
  (lemma \<open>flush_loop_any_buf\<close>), so its initial content is taken as zeros.
\<close>

definition ssd1351_flush :: "u16 list \<Rightarrow> event list" where
  "ssd1351_flush framebuf =
     ssd1351_cmd 0x15 @ ssd1351_data [0x00, 0x7F] @
     ssd1351_cmd 0x75 @ ssd1351_data [0x00, 0x7F] @
     ssd1351_cmd 0x5C @
     ssd1351_data (flush_loop 0 framebuf (replicate (WIDTH * HEIGHT * 2) 0))"

text \<open>The two bytes of a pixel in the order they are sent.\<close>

definition pixel_bytes :: "u16 \<Rightarrow> u8 list" where
  "pixel_bytes p = [ucast (drop_bit 8 p), ucast (p AND 0xFF)]"

subsection \<open>Properties of the panel driver\<close>

lemma spi_write_1: "spi_write [a] = [SpiXfer [a]]"
  by (rule spi_write_short) (simp_all add: chunk_size_def)
lemma spi_write_2: "spi_write [a, b] = [SpiXfer [a, b]]"
  by (rule spi_write_short) (simp_all add: chunk_size_def)
lemma spi_write_3: "spi_write [a, b, c] = [SpiXfer [a, b, c]]"
  by (rule spi_write_short) (simp_all add: chunk_size_def)

lemma wire_bytes_transfers:
  "wire_bytes dc (map SpiXfer xs @ es) = map (if dc then Dat else Cmd) (concat xs) @ wire_bytes dc es"
  by (induction xs) simp_all

lemma wire_bytes_spi_write:
  "wire_bytes dc (spi_write data @ es) = map (if dc then Dat else Cmd) data @ wire_bytes dc es"
proof -
  have "wire_bytes dc (spi_write data @ es) =
      wire_bytes dc (map SpiXfer (transfers (spi_write data)) @ es)"
    using spi_write_only_transfers [of data] by simp
  then show ?thesis
    by (simp only: wire_bytes_transfers concat_transfers_spi_write)
qed

lemma wire_bytes_cmd:
  "wire_bytes dc (ssd1351_cmd c @ es) = Cmd c # wire_bytes False es"
  using wire_bytes_spi_write [of False "[c]" es] by (simp add: ssd1351_cmd_def gpio_set_def)

lemma wire_bytes_data:
  "wire_bytes dc (ssd1351_data ds @ es) = map Dat ds @ wire_bytes True es"
  using wire_bytes_spi_write [of True ds es] by (simp add: ssd1351_data_def gpio_set_def)

lemma wire_bytes_cmd_end: "wire_bytes dc (ssd1351_cmd c) = [Cmd c]"
  using wire_bytes_cmd [of dc c "[]"] by simp

lemma wire_bytes_data_end: "wire_bytes dc (ssd1351_data ds) = map Dat ds"
  using wire_bytes_data [of dc ds "[]"] by simp

lemma wire_bytes_init:
  "wire_bytes dc ssd1351_init =
    [Cmd 0xFD, Dat 0x12, Cmd 0xFD, Dat 0xB1, Cmd 0xAE, Cmd 0xB3, Dat 0xF1, Cmd 0xCA, Dat 0x7F,
     Cmd 0x15, Dat 0x00, Dat 0x7F, Cmd 0x75, Dat 0x00, Dat 0x7F, Cmd 0xA0, Dat 0x74,
     Cmd 0xA1, Dat 0x00, Cmd 0xA2, Dat 0x00, Cmd 0xB5, Dat 0x00, Cmd 0xAB, Dat 0x01,
     Cmd 0xB1, Dat 0x32, Cmd 0xB4, Dat 0xA0, Dat 0xB5, Dat 0x55, Cmd 0xBE, Dat 0x05,
     Cmd 0xC7, Dat 0x0F, Cmd 0xB6, Dat 0x01, Cmd 0xA6, Cmd 0xC1, Dat 0xFF, Dat 0xFF, Dat 0xFF]"
  unfolding ssd1351_init_def
  by (simp add: gpio_set_def msleep_def wire_bytes_cmd wire_bytes_data wire_bytes_data_end)

lemma take_update2:
  "k + 1 < length buf \<Longrightarrow> take (k + 2) (buf[k := a, k + 1 := b]) = take k buf @ [a, b]"
  by (simp add: take_Suc_conv_app_nth numeral_2_eq_2)

lemma flush_loop_length: "length (flush_loop i fb buf) = length buf"
  by (induction i fb buf rule: flush_loop.induct) (subst flush_loop.simps, simp)

lemma flush_loop_eq:
  "i \<le> WIDTH * HEIGHT \<Longrightarrow> length fb = WIDTH * HEIGHT \<Longrightarrow> length buf = WIDTH * HEIGHT * 2 \<Longrightarrow>
   flush_loop i fb buf = take (i * 2) buf @ concat (map pixel_bytes (drop i fb))"
proof (induction i fb buf rule: flush_loop.induct)
  case (1 i fb buf)
  show ?case
  proof (cases "i < WIDTH * HEIGHT")
    case True
    let ?buf' = "buf[i * 2 := ucast (drop_bit 8 (fb ! i)), i * 2 + 1 := ucast (fb ! i AND 0xFF)]"
    have IH: "flush_loop (i + 1) fb ?buf' =
        take ((i + 1) * 2) ?buf' @ concat (map pixel_bytes (drop (i + 1) fb))"
      using True "1.prems" by (intro "1.IH") simp_all
    have lt: "i * 2 + 1 < length buf" using True "1.prems" by simp
    have t: "take ((i + 1) * 2) ?buf' = take (i * 2) buf @ pixel_bytes (fb ! i)"
      using take_update2 [OF lt] by (simp add: pixel_bytes_def)
    have d: "drop i fb = fb ! i # drop (i + 1) fb"
      using True "1.prems" by (simp add: Cons_nth_drop_Suc)
    have "flush_loop i fb buf = flush_loop (i + 1) fb ?buf'"
      using True by (subst flush_loop.simps) simp
    also have "\<dots> = (take (i * 2) buf @ pixel_bytes (fb ! i)) @
        concat (map pixel_bytes (drop (i + 1) fb))"
      by (simp only: IH t)
    also have "\<dots> = take (i * 2) buf @ concat (map pixel_bytes (drop i fb))"
      by (simp only: d list.map concat.simps append_assoc)
    finally show ?thesis .
  next
    case False
    with "1.prems" have "i = WIDTH * HEIGHT" by simp
    with "1.prems" show ?thesis by (subst flush_loop.simps) simp
  qed
qed

lemma hi_byte_value: "unat (ucast (drop_bit 8 p) :: u8) = unat (p::u16) div 256"
proof -
  have "unat p < 2 ^ 16" using unsigned_less [of p] by simp
  then have "unat p div 256 < 256" by simp
  then show ?thesis
    by (simp add: unsigned_ucast_eq unat_drop_bit_eq drop_bit_eq_div take_bit_eq_mod unat_div)
qed

lemma lo_byte_value: "unat (ucast (p AND 0xFF) :: u8) = unat (p::u16) mod 256"
proof -
  have "p AND 0xFF = take_bit 8 p"
    using take_bit_eq_mask [of 8 p] by (simp add: mask_eq_exp_minus_1)
  then show ?thesis
    by (simp add: unsigned_ucast_eq unsigned_take_bit_eq take_bit_eq_mod unat_mod)
qed

lemma length_concat_pixel_bytes: "length (concat (map pixel_bytes fb)) = length fb * 2"
  by (induction fb) (simp_all add: pixel_bytes_def)

lemma flush_loop_any_buf:
  assumes "length framebuf = WIDTH * HEIGHT" and "length buf = WIDTH * HEIGHT * 2"
  shows "flush_loop 0 framebuf buf = concat (map pixel_bytes framebuf)"
  using assms flush_loop_eq [of 0 framebuf buf] by simp

lemma wire_bytes_flush:
  assumes "length framebuf = WIDTH * HEIGHT"
  shows "wire_bytes dc (ssd1351_flush framebuf) =
      [Cmd 0x15, Dat 0x00, Dat 0x7F, Cmd 0x75, Dat 0x00, Dat 0x7F, Cmd 0x5C] @
      map Dat (concat (map pixel_bytes framebuf))"
proof -
  have "flush_loop 0 framebuf (replicate (WIDTH * HEIGHT * 2) 0) =
      concat (map pixel_bytes framebuf)"
    using assms by (intro flush_loop_any_buf) simp_all
  then show ?thesis
    unfolding ssd1351_flush_def
    by (simp add: wire_bytes_cmd wire_bytes_data wire_bytes_data_end)
qed

lemma pixel_bytes_hi_lo:
  "\<exists>hi lo. pixel_bytes p = [hi, lo] \<and> unat p = 256 * unat hi + unat lo"
proof -
  have "unat p = 256 * (unat p div 256) + unat p mod 256" by simp
  then show ?thesis
    by (simp only: pixel_bytes_def hi_byte_value [symmetric] lo_byte_value [symmetric])
      blast
qed

text \<open>
  Claim C2. Whatever the frame buffer holds (128 x 128 pixels), what the panel receives
  from one \<^verbatim>\<open>ssd1351_flush\<close> is: the set-column command \<open>0x15\<close> with parameters 0 and
  127, the set-row command \<open>0x75\<close> with parameters 0 and 127, the write-RAM command
  \<open>0x5C\<close>, and then the pixels in buffer order as data bytes, two per pixel, the high
  byte before the low byte: 32768 data bytes, and nothing else.
\<close>

theorem ssd1351_flush_wire:
  assumes "length framebuf = WIDTH * HEIGHT"
  shows "wire_bytes dc (ssd1351_flush framebuf) =
      [Cmd 0x15, Dat 0x00, Dat 0x7F, Cmd 0x75, Dat 0x00, Dat 0x7F, Cmd 0x5C] @
      map Dat (concat (map pixel_bytes framebuf))
    \<and> length (concat (map pixel_bytes framebuf)) = 32768
    \<and> (\<forall>p. \<exists>hi lo. pixel_bytes p = [hi, lo] \<and> unat p = 256 * unat hi + unat lo)"
proof (intro conjI allI)
  show "wire_bytes dc (ssd1351_flush framebuf) =
      [Cmd 0x15, Dat 0x00, Dat 0x7F, Cmd 0x75, Dat 0x00, Dat 0x7F, Cmd 0x5C] @
      map Dat (concat (map pixel_bytes framebuf))"
    using assms by (rule wire_bytes_flush)
  show "length (concat (map pixel_bytes framebuf)) = 32768"
    using assms by (simp add: length_concat_pixel_bytes WIDTH_def HEIGHT_def)
  show "\<exists>hi lo. pixel_bytes p = [hi, lo] \<and> unat p = 256 * unat hi + unat lo" for p
    by (rule pixel_bytes_hi_lo)
qed

theorem ssd1351_flush_wire_witness:
  "length (replicate (WIDTH * HEIGHT) COL_RED) = WIDTH * HEIGHT
   \<and> wire_bytes False (ssd1351_flush (replicate (WIDTH * HEIGHT) COL_RED)) =
      [Cmd 0x15, Dat 0x00, Dat 0x7F, Cmd 0x75, Dat 0x00, Dat 0x7F, Cmd 0x5C] @
      map Dat (concat (replicate (WIDTH * HEIGHT) [0x00, 0x1F]))"
proof -
  have len: "length (replicate (WIDTH * HEIGHT) COL_RED) = WIDTH * HEIGHT" by simp
  have px: "pixel_bytes COL_RED = [0x00, 0x1F]"
    by (simp add: pixel_bytes_def COL_RED_def)
  show ?thesis
    using len ssd1351_flush_wire [OF len, of False] by (simp add: px)
qed

text \<open>
  Claim C5, as the code has it. \<^verbatim>\<open>ssd1351_init\<close> starts with the hardware reset and
  then sends exactly these commands with these parameters, in this order: unlock
  (\<open>0xFD 0x12\<close>), unlock (\<open>0xFD 0xB1\<close>), display off (\<open>0xAE\<close>), clock divider, mux
  ratio, column window 0..127, row window 0..127, colour depth and order, start line,
  display offset, GPIO mode, function select, first pre-charge (\<open>0xB1\<close>), segment low
  voltage, VCOMH, master contrast, second pre-charge (\<open>0xB6\<close>), normal display,
  per-channel contrast. No display-on command (\<open>0xAF\<close>) is among them.
\<close>

theorem ssd1351_init_sequence:
  "take 6 ssd1351_init = hardware_reset
   \<and> packets (wire_bytes dc (drop 6 ssd1351_init)) =
     [(0xFD, [0x12]), (0xFD, [0xB1]), (0xAE, []), (0xB3, [0xF1]), (0xCA, [0x7F]),
      (0x15, [0x00, 0x7F]), (0x75, [0x00, 0x7F]), (0xA0, [0x74]), (0xA1, [0x00]),
      (0xA2, [0x00]), (0xB5, [0x00]), (0xAB, [0x01]), (0xB1, [0x32]),
      (0xB4, [0xA0, 0xB5, 0x55]), (0xBE, [0x05]), (0xC7, [0x0F]), (0xB6, [0x01]),
      (0xA6, []), (0xC1, [0xFF, 0xFF, 0xFF])]
   \<and> Cmd 0xAF \<notin> set (wire_bytes dc (drop 6 ssd1351_init))"
  unfolding ssd1351_init_def hardware_reset_def
  by (simp add: gpio_set_def msleep_def wire_bytes_cmd wire_bytes_data wire_bytes_data_end)

text \<open>
  The sequence of claim C5 as the specification words it is not the one sent: the code
  sends display off (\<open>0xAE\<close>) as its third command, which the specification's list
  does not have, and the second pre-charge stage (\<open>0xB6\<close>) does not follow the first
  (\<open>0xB1\<close>): segment low voltage (\<open>0xB4\<close>) does.
\<close>

theorem ssd1351_init_not_spec_sequence:
  "map fst (packets (wire_bytes False ssd1351_init)) \<noteq> spec_init_commands
   \<and> map fst (packets (wire_bytes False ssd1351_init)) ! 2 = 0xAE
   \<and> 0xAE \<notin> set spec_init_commands
   \<and> map fst (packets (wire_bytes False ssd1351_init)) ! 12 = 0xB1
   \<and> map fst (packets (wire_bytes False ssd1351_init)) ! 13 = 0xB4
   \<and> spec_init_commands ! 11 = 0xB1
   \<and> spec_init_commands ! 12 = 0xB6"
  unfolding ssd1351_init_def spec_init_commands_def
  by (simp add: gpio_set_def msleep_def wire_bytes_cmd wire_bytes_data wire_bytes_data_end)

subsection \<open>Frame composition\<close>

text \<open>
  C \<^verbatim>\<open>int\<close> arithmetic. Signed overflow and division by zero are undefined behaviour:
  the model makes them faults, so that a result \<open>Inr\<close> means the C computation is
  defined. Division truncates towards zero.
\<close>

datatype fault = DivByZero | IntOverflow

definition c_int :: "int \<Rightarrow> fault + int" where
  "c_int v = (if - 2147483648 \<le> v \<and> v \<le> 2147483647 then Inr v else Inl IntOverflow)"

definition c_abs :: "int \<Rightarrow> fault + int" where
  "c_abs v = c_int \<bar>v\<bar>"

definition c_div :: "int \<Rightarrow> int \<Rightarrow> fault + int" where
  "c_div a b = (if b = 0 then Inl DivByZero else c_int (sgn a * sgn b * (\<bar>a\<bar> div \<bar>b\<bar>)))"

definition and_then :: "fault + 'a \<Rightarrow> ('a \<Rightarrow> fault + 'b) \<Rightarrow> fault + 'b" where
  "and_then m f = (case m of Inl e \<Rightarrow> Inl e | Inr v \<Rightarrow> f v)"

text \<open>
  The colour of column \<open>x\<close>: the body of the outer loop of \<^verbatim>\<open>draw_scanner\<close> up to the
  inner loop. \<^verbatim>\<open>(uint16_t)intensity & 0x1F\<close> is the cast to 16 bits, then the mask.
\<close>

definition scanner_color :: "int \<Rightarrow> int \<Rightarrow> int \<Rightarrow> fault + u16" where
  "scanner_color x center scanner_width =
     and_then (c_int (x - center)) (\<lambda>d.
     and_then (c_abs d) (\<lambda>dist.
       if dist < scanner_width
       then and_then (c_int (dist * 31)) (\<lambda>m.
            and_then (c_div m scanner_width) (\<lambda>q.
            and_then (c_int (31 - q)) (\<lambda>intensity.
              Inr (word_of_int (if intensity < 8 then 8 else intensity) AND 0x1F))))
       else Inr COL_BLACK))"

text \<open>The inner loop: rows \<open>y\<close> to \<open>HEIGHT - 1\<close> of column \<open>x\<close> get the colour.\<close>

function rows_loop :: "nat \<Rightarrow> nat \<Rightarrow> u16 \<Rightarrow> u16 list \<Rightarrow> u16 list" where
  "rows_loop y x color framebuf =
     (if y < HEIGHT
      then rows_loop (y + 1) x color (framebuf[y * WIDTH + x := color])
      else framebuf)"
  by pat_completeness auto
termination
  by (relation "measure (\<lambda>(y, x, color, framebuf). HEIGHT - y)") auto

declare rows_loop.simps [simp del]

text \<open>The outer loop, over the columns \<open>x\<close> to \<open>WIDTH - 1\<close>.\<close>

function columns_loop :: "nat \<Rightarrow> int \<Rightarrow> int \<Rightarrow> u16 list \<Rightarrow> fault + u16 list" where
  "columns_loop x center scanner_width framebuf =
     (if x < WIDTH
      then and_then (scanner_color (int x) center scanner_width) (\<lambda>color.
             columns_loop (x + 1) center scanner_width
               (rows_loop (HEIGHT - 4) x color framebuf))
      else Inr framebuf)"
  by pat_completeness auto
termination
  by (relation "measure (\<lambda>(x, center, scanner_width, framebuf). WIDTH - x)") auto

declare columns_loop.simps [simp del]

text \<open>
  \<^verbatim>\<open>draw_scanner(pos, scanner_width)\<close>. The image \<^verbatim>\<open>welcome_image\<close> comes from a generated
  header that is not part of the sources and is a parameter here; \<^verbatim>\<open>memcpy\<close> copies
  \<^verbatim>\<open>sizeof(framebuf)\<close> bytes of it, that is \<open>WIDTH * HEIGHT\<close> pixels. The result is the
  new content of \<^verbatim>\<open>framebuf\<close> and the trace of the flush.
\<close>

definition draw_scanner :: "u16 list \<Rightarrow> int \<Rightarrow> int \<Rightarrow> fault + (u16 list \<times> event list)" where
  "draw_scanner welcome_image pos scanner_width =
     (let framebuf = take (WIDTH * HEIGHT) welcome_image;
          center = pos
      in and_then (columns_loop 0 center scanner_width framebuf) (\<lambda>framebuf.
           Inr (framebuf, ssd1351_flush framebuf)))"

subsection \<open>Properties of frame composition\<close>

lemma idx_lt:
  fixes x y w h :: nat
  assumes "x < w" and "y < h"
  shows "y * w + x < w * h"
proof -
  have "y * w + x < y * w + w" using assms by simp
  also have "\<dots> = (y + 1) * w" by simp
  also have "\<dots> \<le> h * w" using assms by (intro mult_le_mono1) simp
  finally show ?thesis by (simp add: mult.commute)
qed

lemma idx_eq:
  fixes x y w i :: nat
  assumes "x < w"
  shows "(y * w + x = i) = (i mod w = x \<and> i div w = y)"
proof
  assume "y * w + x = i"
  then have "i = y * w + x" by simp
  with assms show "i mod w = x \<and> i div w = y" by simp
next
  assume "i mod w = x \<and> i div w = y"
  then show "y * w + x = i" using div_mult_mod_eq [of i w] by simp
qed

lemma rows_loop_length: "length (rows_loop y x c fb) = length fb"
  by (induction y x c fb rule: rows_loop.induct) (subst rows_loop.simps, simp)

lemma rows_loop_nth:
  "x < WIDTH \<Longrightarrow> length fb = WIDTH * HEIGHT \<Longrightarrow> i < WIDTH * HEIGHT \<Longrightarrow>
   rows_loop y x c fb ! i = (if i mod WIDTH = x \<and> y \<le> i div WIDTH then c else fb ! i)"
proof (induction y x c fb rule: rows_loop.induct)
  case (1 y x c fb)
  have dl: "i div WIDTH < HEIGHT"
    using "1.prems"(3) by (simp add: less_mult_imp_div_less mult.commute)
  show ?case
  proof (cases "y < HEIGHT")
    case True
    let ?k = "y * WIDTH + x"
    have k: "?k < length fb" using idx_lt [of x WIDTH y HEIGHT] True "1.prems" by simp
    have IH: "rows_loop (y + 1) x c (fb[?k := c]) ! i =
        (if i mod WIDTH = x \<and> y + 1 \<le> i div WIDTH then c else fb[?k := c] ! i)"
      using True "1.prems" by (intro "1.IH") simp_all
    have upd: "fb[?k := c] ! i = (if i mod WIDTH = x \<and> i div WIDTH = y then c else fb ! i)"
      using k "1.prems" idx_eq [of x WIDTH y i] by (simp add: nth_list_update)
    have "rows_loop y x c fb = rows_loop (y + 1) x c (fb[?k := c])"
      using True by (subst rows_loop.simps) simp
    then show ?thesis
      by (simp only: IH upd) auto
  next
    case False
    then have "rows_loop y x c fb = fb" by (subst rows_loop.simps) simp
    with False dl show ?thesis by simp
  qed
qed

lemma columns_loop_ok:
  assumes "\<And>x'. x \<le> x' \<Longrightarrow> x' < WIDTH \<Longrightarrow> scanner_color (int x') center w = Inr (col x')"
    and "length fb = WIDTH * HEIGHT"
  shows "\<exists>fb'. columns_loop x center w fb = Inr fb' \<and> length fb' = WIDTH * HEIGHT \<and>
     (\<forall>i < WIDTH * HEIGHT. fb' ! i =
        (if x \<le> i mod WIDTH \<and> HEIGHT - 4 \<le> i div WIDTH then col (i mod WIDTH) else fb ! i))"
  using assms
proof (induction x center w fb rule: columns_loop.induct)
  case (1 x center w fb)
  show ?case
  proof (cases "x < WIDTH")
    case True
    let ?fb1 = "rows_loop (HEIGHT - 4) x (col x) fb"
    have c: "scanner_color (int x) center w = Inr (col x)"
      using True "1.prems"(1) by simp
    have len1: "length ?fb1 = WIDTH * HEIGHT"
      using "1.prems"(2) by (simp add: rows_loop_length)
    have "\<exists>fb'. columns_loop (x + 1) center w ?fb1 = Inr fb' \<and> length fb' = WIDTH * HEIGHT \<and>
       (\<forall>i < WIDTH * HEIGHT. fb' ! i =
         (if x + 1 \<le> i mod WIDTH \<and> HEIGHT - 4 \<le> i div WIDTH then col (i mod WIDTH)
          else ?fb1 ! i))"
      using True c len1 "1.prems"(1) by (intro "1.IH") simp_all
    then obtain fb' where r: "columns_loop (x + 1) center w ?fb1 = Inr fb'"
      and l: "length fb' = WIDTH * HEIGHT"
      and n: "\<And>i. i < WIDTH * HEIGHT \<Longrightarrow> fb' ! i =
         (if x + 1 \<le> i mod WIDTH \<and> HEIGHT - 4 \<le> i div WIDTH then col (i mod WIDTH)
          else ?fb1 ! i)"
      by blast
    have step: "columns_loop x center w fb = Inr fb'"
      using True c r by (subst columns_loop.simps) (simp add: and_then_def)
    have "fb' ! i =
        (if x \<le> i mod WIDTH \<and> HEIGHT - 4 \<le> i div WIDTH then col (i mod WIDTH) else fb ! i)"
      if "i < WIDTH * HEIGHT" for i
      using that n [OF that] rows_loop_nth [OF True "1.prems"(2) that, of "HEIGHT - 4" "col x"]
      by auto
    with step l show ?thesis by blast
  next
    case False
    have dm: "i mod WIDTH < WIDTH" if "i < WIDTH * HEIGHT" for i
      using that by (cases "WIDTH = 0") simp_all
    from False have "columns_loop x center w fb = Inr fb"
      by (subst columns_loop.simps) simp
    with False "1.prems"(2) dm show ?thesis by fastforce
  qed
qed

lemma c_int_in_range: "- 2147483648 \<le> v \<Longrightarrow> v \<le> 2147483647 \<Longrightarrow> c_int v = Inr v"
  by (simp add: c_int_def)

lemma int_div_bounds:
  fixes a b :: int
  assumes "0 \<le> a" and "0 < b"
  shows "0 \<le> a div b" and "a div b \<le> a"
proof -
  show "0 \<le> a div b" using assms by (simp add: pos_imp_zdiv_nonneg_iff)
  have "a div b \<le> a div 1" using assms by (intro zdiv_mono2) simp_all
  then show "a div b \<le> a" by simp
qed

lemma c_div_nonneg:
  assumes "0 \<le> a" and "a \<le> 2147483647" and "0 < b"
  shows "c_div a b = Inr (a div b)"
proof -
  have s: "sgn a * sgn b * (\<bar>a\<bar> div \<bar>b\<bar>) = a div b"
    using assms by (cases "a = 0") (simp_all add: sgn_if)
  have "c_int (a div b) = Inr (a div b)"
    using int_div_bounds [OF assms(1,3)] assms(2) by (intro c_int_in_range) linarith+
  then show ?thesis
    using assms(3) s by (simp add: c_div_def)
qed

lemma scanner_color_value:
  assumes "0 \<le> x" and "x < 128" and "\<bar>center\<bar> \<le> 16777216"
  shows "scanner_color x center w =
     Inr (if \<bar>x - center\<bar> < w
          then word_of_int (max 8 (31 - \<bar>x - center\<bar> * 31 div w)) AND 0x1F
          else COL_BLACK)"
proof -
  define d where "d = \<bar>x - center\<bar>"
  have d: "0 \<le> d" "d \<le> 16777343" using assms by (auto simp add: d_def)
  have 1: "c_int (x - center) = Inr (x - center)"
    using assms by (intro c_int_in_range) linarith+
  have 2: "c_abs (x - center) = Inr d"
    unfolding c_abs_def d_def [symmetric] using d by (intro c_int_in_range) linarith+
  show ?thesis
  proof (cases "d < w")
    case True
    then have w: "0 < w" using d by linarith
    have 3: "c_int (d * 31) = Inr (d * 31)"
      using d by (intro c_int_in_range) linarith+
    have 4: "c_div (d * 31) w = Inr (d * 31 div w)"
      using d w by (intro c_div_nonneg) linarith+
    have q: "0 \<le> d * 31 div w" "d * 31 div w \<le> d * 31"
      using d w by (intro int_div_bounds; linarith)+
    have 5: "c_int (31 - d * 31 div w) = Inr (31 - d * 31 div w)"
      using d q by (intro c_int_in_range) linarith+
    have m: "(if 31 - d * 31 div w < 8 then 8 else 31 - d * 31 div w) =
        max 8 (31 - d * 31 div w)"
      by (simp add: max_def)
    show ?thesis
      unfolding scanner_color_def d_def [symmetric] using True
      by (simp only: 1 2 3 4 5 m and_then_def sum.case if_True)
  next
    case False
    then show ?thesis
      unfolding scanner_color_def d_def [symmetric]
      by (simp only: 1 2 and_then_def sum.case if_False)
  qed
qed

lemma intensity_word:
  assumes "0 \<le> v" and "v \<le> 31"
  shows "(word_of_int v :: u16) AND 0x1F = word_of_int v"
    and "uint (word_of_int v :: u16) = v"
    and "drop_bit 5 (word_of_int v :: u16) = 0"
proof -
  have t5: "take_bit 5 v = v" using assms by (simp add: take_bit_int_eq_self)
  have "(word_of_int v :: u16) AND 0x1F = take_bit 5 (word_of_int v)"
    using take_bit_eq_mask [of 5 "word_of_int v :: u16"] by (simp add: mask_eq_exp_minus_1)
  also have "\<dots> = word_of_int (take_bit 5 v)" by (simp add: take_bit_of_int)
  finally show "(word_of_int v :: u16) AND 0x1F = word_of_int v" by (simp add: t5)
  show u: "uint (word_of_int v :: u16) = v"
    using assms by (simp add: uint_word_of_int take_bit_int_eq_self)
  have "unat (word_of_int v :: u16) = nat v"
    using u by (simp only: unat_eq_nat_uint)
  then have "unat (drop_bit 5 (word_of_int v :: u16)) = drop_bit 5 (nat v)"
    by (simp only: unat_drop_bit_eq)
  also have "\<dots> = 0" using assms by (simp add: drop_bit_eq_div)
  finally show "drop_bit 5 (word_of_int v :: u16) = 0" by (simp add: unsigned_eq_0_iff)
qed

lemma draw_scanner_frame:
  assumes "length welcome_image = WIDTH * HEIGHT" and "\<bar>pos\<bar> \<le> 16777216"
  shows "\<exists>fb. draw_scanner welcome_image pos w = Inr (fb, ssd1351_flush fb)
     \<and> length fb = WIDTH * HEIGHT
     \<and> (\<forall>i < WIDTH * HEIGHT. fb ! i =
          (if HEIGHT - 4 \<le> i div WIDTH
           then (if \<bar>int (i mod WIDTH) - pos\<bar> < w
                 then word_of_int (max 8 (31 - \<bar>int (i mod WIDTH) - pos\<bar> * 31 div w)) AND 0x1F
                 else COL_BLACK)
           else welcome_image ! i))"
proof -
  let ?col = "\<lambda>x. if \<bar>int x - pos\<bar> < w
      then word_of_int (max 8 (31 - \<bar>int x - pos\<bar> * 31 div w)) AND 0x1F else COL_BLACK"
  have c: "scanner_color (int x') pos w = Inr (?col x')" if "x' < WIDTH" for x'
    using that assms(2) by (intro scanner_color_value) (simp_all add: WIDTH_def)
  have "\<exists>fb'. columns_loop 0 pos w welcome_image = Inr fb' \<and> length fb' = WIDTH * HEIGHT \<and>
     (\<forall>i < WIDTH * HEIGHT. fb' ! i =
        (if 0 \<le> i mod WIDTH \<and> HEIGHT - 4 \<le> i div WIDTH then ?col (i mod WIDTH)
         else welcome_image ! i))"
    using c assms(1) by (intro columns_loop_ok) simp_all
  then obtain fb where r: "columns_loop 0 pos w welcome_image = Inr fb"
    and l: "length fb = WIDTH * HEIGHT"
    and n: "\<forall>i < WIDTH * HEIGHT. fb ! i =
        (if HEIGHT - 4 \<le> i div WIDTH then ?col (i mod WIDTH) else welcome_image ! i)"
    by auto
  have "draw_scanner welcome_image pos w = Inr (fb, ssd1351_flush fb)"
    using assms(1) r by (simp add: draw_scanner_def and_then_def)
  with l n show ?thesis by blast
qed

text \<open>
  Claim C1. For every bar centre in \<open>[10, 118]\<close> and scanner width 20, \<^verbatim>\<open>draw_scanner\<close>
  is defined and leaves a frame whose rows 0..123 are the background image and whose
  rows 124..127 hold, at column \<open>x\<close>, black when \<open>|x - pos| \<ge> 20\<close> and otherwise the value
  \<open>max 8 (31 - |x - pos| * 31 / 20)\<close>: it fits the low five bits (the red channel) and all
  higher bits are zero. That frame is the one flushed.
\<close>

theorem draw_scanner_composes:
  assumes "length welcome_image = WIDTH * HEIGHT" and "10 \<le> pos" and "pos \<le> 118"
  shows "\<exists>framebuf. draw_scanner welcome_image pos 20 = Inr (framebuf, ssd1351_flush framebuf)
     \<and> length framebuf = WIDTH * HEIGHT
     \<and> (\<forall>x y. x < 128 \<and> y < 128 \<longrightarrow>
          (y < 124 \<longrightarrow> framebuf ! (y * 128 + x) = welcome_image ! (y * 128 + x)) \<and>
          (124 \<le> y \<and> 20 \<le> \<bar>int x - pos\<bar> \<longrightarrow> framebuf ! (y * 128 + x) = COL_BLACK) \<and>
          (124 \<le> y \<and> \<bar>int x - pos\<bar> < 20 \<longrightarrow>
             uint (framebuf ! (y * 128 + x)) = max 8 (31 - \<bar>int x - pos\<bar> * 31 div 20) \<and>
             drop_bit 5 (framebuf ! (y * 128 + x)) = 0))"
proof -
  have "\<bar>pos\<bar> \<le> 16777216" using assms by linarith
  from draw_scanner_frame [OF assms(1) this, of 20]
  obtain fb where r: "draw_scanner welcome_image pos 20 = Inr (fb, ssd1351_flush fb)"
    and l: "length fb = WIDTH * HEIGHT"
    and n: "\<And>i. i < WIDTH * HEIGHT \<Longrightarrow> fb ! i =
          (if HEIGHT - 4 \<le> i div WIDTH
           then (if \<bar>int (i mod WIDTH) - pos\<bar> < 20
                 then word_of_int (max 8 (31 - \<bar>int (i mod WIDTH) - pos\<bar> * 31 div 20)) AND 0x1F
                 else COL_BLACK)
           else welcome_image ! i)"
    by blast
  have px: "(y < 124 \<longrightarrow> fb ! (y * 128 + x) = welcome_image ! (y * 128 + x)) \<and>
          (124 \<le> y \<and> 20 \<le> \<bar>int x - pos\<bar> \<longrightarrow> fb ! (y * 128 + x) = COL_BLACK) \<and>
          (124 \<le> y \<and> \<bar>int x - pos\<bar> < 20 \<longrightarrow>
             uint (fb ! (y * 128 + x)) = max 8 (31 - \<bar>int x - pos\<bar> * 31 div 20) \<and>
             drop_bit 5 (fb ! (y * 128 + x)) = 0)"
    if "x < 128" and "y < 128" for x y :: nat
  proof -
    define v where "v = max 8 (31 - \<bar>int x - pos\<bar> * 31 div 20)"
    have "0 \<le> \<bar>int x - pos\<bar> * 31 div 20"
      by (intro int_div_bounds) simp_all
    then have v: "0 \<le> v" "v \<le> 31" by (simp_all add: v_def)
    have i: "y * 128 + x < WIDTH * HEIGHT"
      using idx_lt [of x 128 y 128] that by (simp add: WIDTH_def HEIGHT_def)
    have dm: "(y * 128 + x) div WIDTH = y" "(y * 128 + x) mod WIDTH = x"
      using that by (simp_all add: WIDTH_def)
    have "fb ! (y * 128 + x) =
        (if 124 \<le> y then (if \<bar>int x - pos\<bar> < 20 then word_of_int v AND 0x1F else COL_BLACK)
         else welcome_image ! (y * 128 + x))"
      using n [OF i] unfolding dm v_def by (simp add: HEIGHT_def)
    then show ?thesis
      using intensity_word [OF v] unfolding v_def [symmetric] by auto
  qed
  show ?thesis using r l px by blast
qed

theorem draw_scanner_composes_witness:
  "\<exists>framebuf. draw_scanner (replicate (WIDTH * HEIGHT) 0xFFFF) 64 20
        = Inr (framebuf, ssd1351_flush framebuf)
     \<and> framebuf ! (0 * 128 + 5) = 0xFFFF
     \<and> framebuf ! (127 * 128 + 0) = COL_BLACK
     \<and> uint (framebuf ! (124 * 128 + 64)) = 31
     \<and> uint (framebuf ! (125 * 128 + 83)) = 8"
proof -
  have len: "length (replicate (WIDTH * HEIGHT) (0xFFFF :: u16)) = WIDTH * HEIGHT" by simp
  from draw_scanner_composes [OF len, of 64]
  obtain fb where r: "draw_scanner (replicate (WIDTH * HEIGHT) 0xFFFF) 64 20
        = Inr (fb, ssd1351_flush fb)"
    and n: "\<And>x y. x < 128 \<and> y < 128 \<longrightarrow>
          (y < 124 \<longrightarrow> fb ! (y * 128 + x) = replicate (WIDTH * HEIGHT) 0xFFFF ! (y * 128 + x)) \<and>
          (124 \<le> y \<and> 20 \<le> \<bar>int x - 64\<bar> \<longrightarrow> fb ! (y * 128 + x) = COL_BLACK) \<and>
          (124 \<le> y \<and> \<bar>int x - 64\<bar> < 20 \<longrightarrow>
             uint (fb ! (y * 128 + x)) = max 8 (31 - \<bar>int x - 64\<bar> * 31 div 20) \<and>
             drop_bit 5 (fb ! (y * 128 + x)) = 0)"
    by auto
  have "fb ! (0 * 128 + 5) = 0xFFFF"
    using n [of 5 0] by (simp add: WIDTH_def HEIGHT_def)
  moreover have "fb ! (127 * 128 + 0) = COL_BLACK"
    using n [of 0 127] by simp
  moreover have "uint (fb ! (124 * 128 + 64)) = 31"
    using n [of 64 124] by simp
  moreover have "uint (fb ! (125 * 128 + 83)) = 8"
    using n [of 83 125] by simp
  ultimately show ?thesis using r by blast
qed

subsection \<open>Hardware handles: acquisition and cleanup\<close>

text \<open>
  The four global handles. Their initial values are the initialisers of the C file:
  \<^verbatim>\<open>spi_fd = -1\<close>, \<^verbatim>\<open>gpio_fd = -1\<close>, and the zero-initialised static structs
  \<^verbatim>\<open>dc_req\<close> and \<^verbatim>\<open>rst_req\<close>, of which only the field \<^verbatim>\<open>fd\<close> is read.
\<close>

record hw =
  spi_fd :: int
  gpio_fd :: int
  dc_req_fd :: int
  rst_req_fd :: int

definition hw_initial :: hw where
  "hw_initial = \<lparr>spi_fd = - 1, gpio_fd = - 1, dc_req_fd = 0, rst_req_fd = 0\<rparr>"

text \<open>
  What the kernel answers during \<^verbatim>\<open>hw_init\<close>: the results of the two \<^verbatim>\<open>open\<close> calls
  (negative on failure), and for each \<^verbatim>\<open>GPIO_V2_GET_LINE_IOCTL\<close> either failure
  (\<open>None\<close>) or the descriptor the kernel stores in the request (\<open>Some fd\<close>).
\<close>

record env =
  open_spi :: int
  open_gpio :: int
  get_line_dc :: "int option"
  get_line_rst :: "int option"

text \<open>
  \<^verbatim>\<open>gpio_request_line\<close>: the return value, the \<^verbatim>\<open>fd\<close> of \<^verbatim>\<open>*req\<close> afterwards (written
  only on success) and the diagnostic.
\<close>

definition gpio_request_line :: "int option \<Rightarrow> int \<Rightarrow> int \<times> int \<times> event list" where
  "gpio_request_line answer req_fd =
     (case answer of
        None \<Rightarrow> (- 1, req_fd, [Perror ''GPIO_V2_GET_LINE_IOCTL''])
      | Some fd \<Rightarrow> (0, fd, []))"

definition hw_init :: "env \<Rightarrow> hw \<Rightarrow> int \<times> hw \<times> event list" where
  "hw_init e h0 =
     (let h1 = h0\<lparr>spi_fd := open_spi e\<rparr> in
      if spi_fd h1 < 0 then (- 1, h1, [Perror ''open spi''])
      else
        let cfg = [SpiConfig ''SPI_IOC_WR_MODE'' 0,
                   SpiConfig ''SPI_IOC_WR_BITS_PER_WORD'' 8,
                   SpiConfig ''SPI_IOC_WR_MAX_SPEED_HZ'' SPI_SPEED];
            h2 = h1\<lparr>gpio_fd := open_gpio e\<rparr> in
        if gpio_fd h2 < 0 then (- 1, h2, cfg @ [Perror ''open gpiochip0''])
        else
          (case gpio_request_line (get_line_dc e) (dc_req_fd h2) of (rc_dc, fd_dc, ev_dc) \<Rightarrow>
             let h3 = h2\<lparr>dc_req_fd := fd_dc\<rparr> in
             if rc_dc < 0 then (- 1, h3, cfg @ ev_dc)
             else
               (case gpio_request_line (get_line_rst e) (rst_req_fd h3) of
                  (rc_rst, fd_rst, ev_rst) \<Rightarrow>
                    let h4 = h3\<lparr>rst_req_fd := fd_rst\<rparr> in
                    if rc_rst < 0 then (- 1, h4, cfg @ ev_dc @ ev_rst)
                    else (0, h4, cfg @ ev_dc @ ev_rst @ ssd1351_init))))"

text \<open>
  \<^verbatim>\<open>hw_cleanup\<close> closes what its guards let through and assigns to no handle: the
  state it returns is the one it was given.
\<close>

definition hw_cleanup :: "hw \<Rightarrow> hw \<times> event list" where
  "hw_cleanup h =
     (h,
      (if dc_req_fd h > 0 then [Close (dc_req_fd h)] else []) @
      (if rst_req_fd h > 0 then [Close (rst_req_fd h)] else []) @
      (if gpio_fd h \<ge> 0 then [Close (gpio_fd h)] else []) @
      (if spi_fd h \<ge> 0 then [Close (spi_fd h)] else []))"

text \<open>The descriptors a trace closes, in order.\<close>

fun closes :: "event list \<Rightarrow> int list" where
  "closes [] = []"
| "closes (Close fd # es) = fd # closes es"
| "closes (e # es) = closes es"

text \<open>
  The handles \<^verbatim>\<open>hw_init\<close> acquires under the answers \<open>e\<close>, in the order it acquires
  them: it stops at the first failure.
\<close>

definition acquired :: "env \<Rightarrow> int list" where
  "acquired e =
     (if open_spi e < 0 then []
      else open_spi e #
        (if open_gpio e < 0 then []
         else open_gpio e #
           (case get_line_dc e of
              None \<Rightarrow> []
            | Some d \<Rightarrow> d # (case get_line_rst e of None \<Rightarrow> [] | Some r \<Rightarrow> [r]))))"

text \<open>
  A line descriptor is never 0: the kernel hands out the lowest free descriptor, and
  the SPI device and the GPIO chip are open when a line is requested.
\<close>

definition line_fds_positive :: "env \<Rightarrow> bool" where
  "line_fds_positive e =
     ((case get_line_dc e of None \<Rightarrow> True | Some d \<Rightarrow> 0 < d) \<and>
      (case get_line_rst e of None \<Rightarrow> True | Some r \<Rightarrow> 0 < r))"

subsection \<open>The process: start-up, animation loop, shutdown\<close>

text \<open>The local \<^verbatim>\<open>scanner_width\<close> of \<^verbatim>\<open>main\<close>, never assigned after its initialiser.\<close>

definition scanner_width :: int where "scanner_width = 20"

text \<open>
  The update of \<^verbatim>\<open>pos\<close> and \<^verbatim>\<open>dir\<close> in the loop body: the step, then the two
  comparisons in the order of the source. The position stays within \<open>[0, 118]\<close>
  (lemma \<open>advance_pow_range\<close>), so this arithmetic never leaves the range of \<^verbatim>\<open>int\<close>.
\<close>

fun advance :: "int \<times> int \<Rightarrow> int \<times> int" where
  "advance (pos, dir) =
     (let pos = pos + dir * 4 in
      if pos \<ge> int WIDTH - scanner_width div 2 then (int WIDTH - scanner_width div 2, - 1)
      else if pos \<le> scanner_width div 2 then (scanner_width div 2, 1)
      else (pos, dir))"

text \<open>
  The update as the specification words it: clamp and flip only when the new centre
  would exceed the upper bound or fall below the lower bound.
\<close>

fun spec_advance :: "int \<times> int \<Rightarrow> int \<times> int" where
  "spec_advance (pos, dir) =
     (let pos = pos + dir * 4 in
      if pos > 118 then (118, - 1)
      else if pos < 10 then (10, 1)
      else (pos, dir))"

text \<open>
  The process as a machine. One step is one statement of \<^verbatim>\<open>main\<close> at the level the
  claims need: the loop test, the call of \<^verbatim>\<open>draw_scanner\<close>, the update of the
  position, the sleep, and the cleanup that ends in \<^verbatim>\<open>return 0\<close>. \<open>drawn\<close> and
  \<open>ticks\<close> are history variables: the positions \<^verbatim>\<open>draw_scanner\<close> has been called
  with, and how many times the position has been updated.
\<close>

datatype pc = LoopTest | Draw | Advance | Sleep | Cleanup | Exited int | Crashed fault

record proc =
  pc :: pc
  running :: int
  handles :: hw
  framebuf :: "u16 list"
  pos :: int
  dir :: int
  trace :: "event list"
  drawn :: "int list"
  ticks :: nat

text \<open>
  \<^verbatim>\<open>main\<close> up to the loop: \<^verbatim>\<open>hw_init\<close>, and on failure the message, the cleanup and
  \<^verbatim>\<open>return 1\<close>; otherwise display on (\<open>0xAF\<close>) and the initial animation state.
\<close>

definition startup :: "env \<Rightarrow> proc" where
  "startup e =
     (case hw_init e hw_initial of (rc, h, evs) \<Rightarrow>
        if rc < 0
        then \<lparr>pc = Exited 1, running = 1, handles = fst (hw_cleanup h),
              framebuf = replicate (WIDTH * HEIGHT) 0, pos = 0, dir = 1,
              trace = evs @ [Stderr (''Hardware init failed'' @ [CHR 0x0A])] @
                snd (hw_cleanup h),
              drawn = [], ticks = 0\<rparr>
        else \<lparr>pc = LoopTest, running = 1, handles = h,
              framebuf = replicate (WIDTH * HEIGHT) 0, pos = 0, dir = 1,
              trace = evs @ ssd1351_cmd 0xAF, drawn = [], ticks = 0\<rparr>)"

definition step :: "u16 list \<Rightarrow> proc \<Rightarrow> proc" where
  "step welcome_image s =
     (case pc s of
        LoopTest \<Rightarrow> if running s \<noteq> 0 then s\<lparr>pc := Draw\<rparr> else s\<lparr>pc := Cleanup\<rparr>
      | Draw \<Rightarrow>
          (case draw_scanner welcome_image (pos s) scanner_width of
             Inl f \<Rightarrow> s\<lparr>pc := Crashed f\<rparr>
           | Inr (fb, evs) \<Rightarrow>
               s\<lparr>pc := Advance, framebuf := fb, trace := trace s @ evs,
                 drawn := drawn s @ [pos s]\<rparr>)
      | Advance \<Rightarrow>
          (case advance (pos s, dir s) of
             (p, d) \<Rightarrow> s\<lparr>pc := Sleep, pos := p, dir := d, ticks := ticks s + 1\<rparr>)
      | Sleep \<Rightarrow> s\<lparr>pc := LoopTest, trace := trace s @ msleep 30\<rparr>
      | Cleanup \<Rightarrow>
          (case hw_cleanup (handles s) of (h, evs) \<Rightarrow>
             s\<lparr>pc := Exited 0, handles := h, trace := trace s @ evs\<rparr>)
      | Exited status \<Rightarrow> s
      | Crashed f \<Rightarrow> s)"

text \<open>\<^verbatim>\<open>signal_handler\<close>: the only thing a signal does.\<close>

definition signal_handler :: "proc \<Rightarrow> proc" where
  "signal_handler s = s\<lparr>running := 0\<rparr>"

text \<open>
  The position \<^verbatim>\<open>draw_scanner\<close> is called with in round \<open>k\<close> of the loop (rounds
  counted from 0), and the same under the update as the specification words it.
\<close>

definition emitted :: "nat \<Rightarrow> int" where
  "emitted k = fst ((advance ^^ k) (0, 1))"

definition spec_emitted :: "nat \<Rightarrow> int" where
  "spec_emitted k = fst ((spec_advance ^^ k) (0, 1))"

text \<open>
  A run of the process from state \<open>s\<close>: \<open>sig k\<close> says whether a termination or interrupt
  signal is delivered just before step \<open>k\<close> (counted from 0).
\<close>

fun run :: "u16 list \<Rightarrow> (nat \<Rightarrow> bool) \<Rightarrow> nat \<Rightarrow> proc \<Rightarrow> proc" where
  "run welcome_image sig 0 s = s"
| "run welcome_image sig (Suc n) s =
     (let s' = run welcome_image sig n s
      in step welcome_image (if sig n then signal_handler s' else s'))"

text \<open>
  Concrete runs: a process whose four handles are acquired, one whose reset line is
  refused, one whose SPI device cannot be opened, a background image, a run without
  signal and one with a single signal.
\<close>

definition example_env :: env where
  "example_env = \<lparr>open_spi = 3, open_gpio = 4, get_line_dc = Some 5, get_line_rst = Some 6\<rparr>"

definition example_env_no_rst :: env where
  "example_env_no_rst = \<lparr>open_spi = 3, open_gpio = 4, get_line_dc = Some 5, get_line_rst = None\<rparr>"

definition example_env_no_spi :: env where
  "example_env_no_spi =
     \<lparr>open_spi = - 1, open_gpio = 4, get_line_dc = Some 5, get_line_rst = Some 6\<rparr>"

definition example_image :: "u16 list" where
  "example_image = replicate (WIDTH * HEIGHT) 0xFFFF"

definition no_signal :: "nat \<Rightarrow> bool" where
  "no_signal k = False"

definition signal_at :: "nat \<Rightarrow> nat \<Rightarrow> bool" where
  "signal_at t k = (k = t)"

subsection \<open>The animation state\<close>

lemma advance_simp:
  "advance (p, d) =
     (if p + d * 4 \<ge> 118 then (118, - 1) else if p + d * 4 \<le> 10 then (10, 1) else (p + d * 4, d))"
  by (simp add: advance.simps WIDTH_def scanner_width_def Let_def)

declare advance.simps [simp del]

text \<open>
  The triangle wave in closed form: \<open>wave j\<close> is the position and direction after
  \<open>j + 1\<close> updates, for \<open>j\<close> below the period 54.
\<close>

definition wave :: "nat \<Rightarrow> int \<times> int" where
  "wave j = (if j \<le> 26 then (10 + 4 * int j, 1)
             else if j = 27 then (118, - 1)
             else (226 - 4 * int j, - 1))"

lemma advance_wave:
  assumes "j < 54"
  shows "advance (wave j) = wave (if j = 53 then 0 else j + 1)"
  using assms by (auto simp add: wave_def advance_simp)

lemma advance_start: "advance (0, 1) = wave 0"
  by (simp add: advance_simp wave_def)

lemma funpow_advance: "(advance ^^ Suc k) (0, 1) = wave (k mod 54)"
proof (induction k)
  case 0
  then show ?case by (simp add: advance_start)
next
  case (Suc k)
  have j: "k mod 54 < 54" by simp
  have m: "Suc k mod 54 = (if k mod 54 = 53 then 0 else k mod 54 + 1)"
    by (simp add: mod_Suc)
  have "(advance ^^ Suc (Suc k)) (0, 1) = advance ((advance ^^ Suc k) (0, 1))"
    by simp
  also have "\<dots> = advance (wave (k mod 54))" by (simp only: Suc.IH)
  also have "\<dots> = wave (Suc k mod 54)" by (simp only: advance_wave [OF j] m)
  finally show ?case .
qed

lemma wave_range:
  assumes "j < 54"
  shows "10 \<le> fst (wave j)" "fst (wave j) \<le> 118" "snd (wave j) = 1 \<or> snd (wave j) = - 1"
  using assms by (auto simp add: wave_def)

lemma advance_pow_range:
  "0 \<le> fst ((advance ^^ k) (0, 1)) \<and> fst ((advance ^^ k) (0, 1)) \<le> 118 \<and>
   (snd ((advance ^^ k) (0, 1)) = 1 \<or> snd ((advance ^^ k) (0, 1)) = - 1)"
proof (cases k)
  case 0
  then show ?thesis by simp
next
  case (Suc n)
  have "n mod 54 < 54" by simp
  from wave_range [OF this] show ?thesis
    unfolding Suc funpow_advance by linarith
qed

lemma emitted_Suc: "emitted (Suc k) = fst (wave (k mod 54))"
  by (simp only: emitted_def funpow_advance)

lemma emitted_0: "emitted 0 = 0"
  by (simp add: emitted_def)

lemma mod54_Suc: "Suc k mod 54 = (if k mod 54 = 53 then 0 else k mod 54 + 1)"
  by (simp add: mod_Suc)

subsection \<open>Invariant of the process\<close>

lemma closes_append: "closes (xs @ ys) = closes xs @ closes ys"
  by (induction xs rule: closes.induct) simp_all

lemma closes_map_SpiXfer: "closes (map SpiXfer xs) = []"
  by (induction xs) simp_all

lemma closes_spi_write: "closes (spi_write data) = []"
  using closes_map_SpiXfer [of "transfers (spi_write data)"] spi_write_only_transfers [of data]
  by simp

lemma closes_cmd: "closes (ssd1351_cmd c) = []"
  by (simp add: ssd1351_cmd_def gpio_set_def closes_spi_write)

lemma closes_data: "closes (ssd1351_data ds) = []"
  by (simp add: ssd1351_data_def gpio_set_def closes_spi_write)

lemma closes_init: "closes ssd1351_init = []"
  by (simp add: ssd1351_init_def closes_append closes_cmd closes_data gpio_set_def msleep_def)

lemma closes_flush: "closes (ssd1351_flush fb) = []"
  by (simp add: ssd1351_flush_def closes_append closes_cmd closes_data)

lemma draw_ok:
  assumes "length img = WIDTH * HEIGHT" and "0 \<le> p" and "p \<le> 118"
  shows "\<exists>fb. draw_scanner img p scanner_width = Inr (fb, ssd1351_flush fb)"
proof -
  have "\<bar>p\<bar> \<le> 16777216" using assms by linarith
  from draw_scanner_frame [OF assms(1) this, of scanner_width] show ?thesis by blast
qed

text \<open>
  What holds in every state the process reaches once \<^verbatim>\<open>hw_init\<close> has succeeded: the
  animation state is the initial one updated \<open>ticks\<close> times, the frames drawn are the
  first positions of that sequence, and nothing is closed before the exit.
\<close>

definition loop_inv :: "env \<Rightarrow> proc \<Rightarrow> bool" where
  "loop_inv e s =
     ((pc s = LoopTest \<or> pc s = Draw \<or> pc s = Advance \<or> pc s = Sleep \<or> pc s = Cleanup
         \<or> pc s = Exited 0) \<and>
      (pos s, dir s) = (advance ^^ ticks s) (0, 1) \<and>
      drawn s = map emitted [0..<(if pc s = Advance then ticks s + 1 else ticks s)] \<and>
      handles s = handles (startup e) \<and>
      closes (trace s) =
        (if pc s = Exited 0 then closes (snd (hw_cleanup (handles (startup e)))) else []))"

lemma hw_init_events_no_close:
  "hw_init e h = (rc, h', evs) \<Longrightarrow> closes evs = []"
  by (auto simp add: hw_init_def gpio_request_line_def Let_def closes_append closes_init
      split: if_splits option.splits)

lemma startup_cases:
  obtains (failed) rc h evs where "hw_init e hw_initial = (rc, h, evs)" "rc < 0"
      "pc (startup e) = Exited 1"
  | (ok) rc h evs where "hw_init e hw_initial = (rc, h, evs)" "\<not> rc < 0"
      "startup e = \<lparr>pc = LoopTest, running = 1, handles = h,
              framebuf = replicate (WIDTH * HEIGHT) 0, pos = 0, dir = 1,
              trace = evs @ ssd1351_cmd 0xAF, drawn = [], ticks = 0\<rparr>"
proof -
  obtain rc h evs where h: "hw_init e hw_initial = (rc, h, evs)"
    by (cases "hw_init e hw_initial") auto
  show ?thesis
  proof (cases "rc < 0")
    case True
    with h have "pc (startup e) = Exited 1" by (simp add: startup_def)
    with h True show ?thesis by (rule failed)
  next
    case False
    with h show ?thesis by (intro ok [of rc h evs]) (simp_all add: startup_def)
  qed
qed

lemma startup_pc: "pc (startup e) = (if fst (hw_init e hw_initial) < 0 then Exited 1 else LoopTest)"
  by (cases "hw_init e hw_initial") (simp add: startup_def)

lemma example_image_length: "length example_image = WIDTH * HEIGHT"
  by (simp add: example_image_def)

lemma example_env_ok: "\<not> fst (hw_init example_env hw_initial) < 0"
  by (simp add: example_env_def hw_init_def gpio_request_line_def hw_initial_def Let_def)

lemma example_startup: "pc (startup example_env) = LoopTest"
  using example_env_ok by (simp add: startup_pc)

lemma inv_startup:
  assumes "pc (startup e) = LoopTest"
  shows "loop_inv e (startup e)"
proof (cases e rule: startup_cases)
  case (failed rc h evs)
  with assms show ?thesis by simp
next
  case (ok rc h evs)
  have "closes evs = []" using ok(1) by (rule hw_init_events_no_close)
  then show ?thesis
    unfolding loop_inv_def ok(3) by (simp add: closes_append closes_cmd)
qed

lemma inv_signal: "loop_inv e s \<Longrightarrow> loop_inv e (signal_handler s)"
  by (simp add: loop_inv_def signal_handler_def)

lemma inv_pos_range:
  assumes "loop_inv e s"
  shows "0 \<le> pos s" "pos s \<le> 118" "dir s = 1 \<or> dir s = - 1" "pos s = emitted (ticks s)"
proof -
  have pd: "(pos s, dir s) = (advance ^^ ticks s) (0, 1)"
    using assms by (simp add: loop_inv_def)
  then have "pos s = fst ((advance ^^ ticks s) (0, 1))" "dir s = snd ((advance ^^ ticks s) (0, 1))"
    by (metis fst_conv, metis snd_conv)
  with advance_pow_range [of "ticks s"]
  show "0 \<le> pos s" "pos s \<le> 118" "dir s = 1 \<or> dir s = - 1" "pos s = emitted (ticks s)"
    by (simp_all add: emitted_def)
qed

lemma inv_step:
  assumes "length img = WIDTH * HEIGHT" and "loop_inv e s"
  shows "loop_inv e (step img s)"
proof (cases "pc s")
  case LoopTest
  with assms(2) show ?thesis by (simp add: loop_inv_def step_def)
next
  case Draw
  from draw_ok [OF assms(1) inv_pos_range(1,2) [OF assms(2)]]
  obtain fb where d: "draw_scanner img (pos s) scanner_width = Inr (fb, ssd1351_flush fb)"
    by blast
  have st: "step img s = s\<lparr>pc := Advance, framebuf := fb, trace := trace s @ ssd1351_flush fb,
                 drawn := drawn s @ [pos s]\<rparr>"
    using Draw d by (simp add: step_def)
  have dr: "drawn s = map emitted [0..<ticks s]"
    using assms(2) Draw by (simp add: loop_inv_def)
  have "drawn s @ [pos s] = map emitted [0..<ticks s + 1]"
    using dr inv_pos_range(4) [OF assms(2)] by simp
  then show ?thesis
    using assms(2) Draw unfolding st loop_inv_def
    by (simp add: closes_append closes_flush)
next
  case Advance
  obtain p d where a: "advance (pos s, dir s) = (p, d)" by (cases "advance (pos s, dir s)") auto
  have st: "step img s = s\<lparr>pc := Sleep, pos := p, dir := d, ticks := ticks s + 1\<rparr>"
    using Advance a by (simp add: step_def)
  have "(advance ^^ (ticks s + 1)) (0, 1) = (p, d)"
    using assms(2) a by (simp add: loop_inv_def)
  then show ?thesis
    using assms(2) Advance unfolding st loop_inv_def by simp
next
  case Sleep
  with assms(2) show ?thesis by (simp add: loop_inv_def step_def closes_append msleep_def)
next
  case Cleanup
  obtain h evs where c: "hw_cleanup (handles s) = (h, evs)" by (cases "hw_cleanup (handles s)") auto
  then have h: "h = handles s" by (simp add: hw_cleanup_def)
  have st: "step img s = s\<lparr>pc := Exited 0, handles := h, trace := trace s @ evs\<rparr>"
    using Cleanup c by (simp add: step_def)
  show ?thesis
    using assms(2) Cleanup c h unfolding st loop_inv_def by (simp add: closes_append)
next
  case (Exited x)
  with assms(2) show ?thesis by (simp add: loop_inv_def step_def)
next
  case (Crashed x)
  with assms(2) show ?thesis by (simp add: loop_inv_def step_def)
qed

lemma inv_run:
  assumes "length img = WIDTH * HEIGHT" and "pc (startup e) = LoopTest"
  shows "loop_inv e (run img sig n (startup e))"
proof (induction n)
  case 0
  then show ?case using assms(2) by (simp add: inv_startup)
next
  case (Suc n)
  then show ?case by (simp add: Let_def inv_step [OF assms(1)] inv_signal)
qed

subsection \<open>Shutdown on a signal\<close>

text \<open>
  Once the flag is down: the number of steps left before the process has exited, and
  whether a frame is still to be drawn on the way.
\<close>

fun togo :: "pc \<Rightarrow> nat" where
  "togo Draw = 5"
| "togo Advance = 4"
| "togo Sleep = 3"
| "togo LoopTest = 2"
| "togo Cleanup = 1"
| "togo (Exited status) = 0"
| "togo (Crashed f) = 0"

definition pending :: "proc \<Rightarrow> nat" where
  "pending s = (if pc s = Draw then 1 else 0)"

lemma togo_le: "togo p \<le> 5"
  by (cases p) simp_all

lemma stop_step:
  assumes "length img = WIDTH * HEIGHT" and "loop_inv e s" and "running s = 0"
  shows "running (step img s) = 0"
    and "togo (pc (step img s)) = togo (pc s) - 1"
    and "length (drawn (step img s)) + pending (step img s) = length (drawn s) + pending s"
proof -
  have "running (step img s) = 0 \<and> togo (pc (step img s)) = togo (pc s) - 1 \<and>
    length (drawn (step img s)) + pending (step img s) = length (drawn s) + pending s"
  proof (cases "pc s")
    case Draw
    from draw_ok [OF assms(1) inv_pos_range(1,2) [OF assms(2)]]
    obtain fb where d: "draw_scanner img (pos s) scanner_width = Inr (fb, ssd1351_flush fb)"
      by blast
    with Draw assms(3) show ?thesis by (simp add: step_def pending_def)
  next
    case Advance
    with assms(3) show ?thesis
      by (cases "advance (pos s, dir s)") (simp add: step_def pending_def)
  next
    case Cleanup
    with assms(3) show ?thesis
      by (cases "hw_cleanup (handles s)") (simp add: step_def pending_def)
  qed (use assms(3) in \<open>simp_all add: step_def pending_def\<close>)
  then show "running (step img s) = 0"
    and "togo (pc (step img s)) = togo (pc s) - 1"
    and "length (drawn (step img s)) + pending (step img s) = length (drawn s) + pending s"
    by simp_all
qed

lemma after_signal:
  assumes "length img = WIDTH * HEIGHT" and "pc (startup e) = LoopTest" and "sig t"
  shows "running (run img sig (Suc (t + k)) (startup e)) = 0
    \<and> togo (pc (run img sig (Suc (t + k)) (startup e))) \<le> 4 - k
    \<and> length (drawn (run img sig (Suc (t + k)) (startup e)))
        + pending (run img sig (Suc (t + k)) (startup e))
      \<le> length (drawn (run img sig t (startup e))) + 1"
proof (induction k)
  case 0
  let ?s = "run img sig t (startup e)"
  let ?h = "signal_handler ?s"
  have i: "loop_inv e ?h" using inv_run [OF assms(1,2)] by (rule inv_signal)
  have r: "running ?h = 0" by (simp add: signal_handler_def)
  have eq: "run img sig (Suc (t + 0)) (startup e) = step img ?h"
    using assms(3) by (simp add: Let_def)
  have "pc ?h = pc ?s" "drawn ?h = drawn ?s" by (simp_all add: signal_handler_def)
  then have "togo (pc ?h) \<le> 5" "length (drawn ?h) + pending ?h \<le> length (drawn ?s) + 1"
    by (simp_all add: togo_le pending_def)
  then show ?case
    unfolding eq using stop_step [OF assms(1) i r] by simp
next
  case (Suc k)
  let ?v = "run img sig (Suc (t + k)) (startup e)"
  let ?w = "if sig (Suc (t + k)) then signal_handler ?v else ?v"
  have i: "loop_inv e ?w"
    using inv_run [OF assms(1,2)] by (simp add: inv_signal del: run.simps)
  have r: "running ?w = 0" using Suc.IH by (simp add: signal_handler_def del: run.simps)
  have same: "pc ?w = pc ?v" "drawn ?w = drawn ?v" "pending ?w = pending ?v"
    by (simp_all add: signal_handler_def pending_def del: run.simps)
  have eq: "run img sig (Suc (t + Suc k)) (startup e) = step img ?w"
    by (simp add: Let_def)
  have a: "running (step img ?w) = 0"
    and b: "togo (pc (step img ?w)) = togo (pc ?v) - 1"
    and c: "length (drawn (step img ?w)) + pending (step img ?w) = length (drawn ?v) + pending ?v"
    using stop_step [OF assms(1) i r] unfolding same by blast+
  have "togo (pc (step img ?w)) \<le> 4 - Suc k"
    using b Suc.IH by linarith
  moreover have "length (drawn (step img ?w)) + pending (step img ?w)
      \<le> length (drawn (run img sig t (startup e))) + 1"
    using c Suc.IH by linarith
  ultimately show ?case
    unfolding eq using a by blast
qed

lemma exits_after_signal:
  assumes "length img = WIDTH * HEIGHT" and "pc (startup e) = LoopTest" and "sig t"
  shows "pc (run img sig (t + 5) (startup e)) = Exited 0"
proof -
  let ?s = "run img sig (t + 5) (startup e)"
  have e5: "t + 5 = Suc (t + 4)" by simp
  have "togo (pc ?s) \<le> 4 - 4"
    unfolding e5 using after_signal [where sig = sig and t = t and k = 4, OF assms] by blast
  then have "togo (pc ?s) = 0" by simp
  moreover have "loop_inv e ?s" by (rule inv_run [OF assms(1,2)])
  ultimately show ?thesis by (auto simp add: loop_inv_def)
qed

lemma step_ignores_flag:
  "pc s \<noteq> LoopTest \<Longrightarrow> step img (s\<lparr>running := r\<rparr>) = (step img s)\<lparr>running := r\<rparr>"
  by (cases "pc s") (simp_all add: step_def split: sum.splits prod.splits)

text \<open>
  Claim C9. Let a signal be delivered just before step \<open>t\<close> of a process whose
  \<^verbatim>\<open>hw_init\<close> succeeded. Then at most one more frame is drawn after that point,
  whatever else is delivered later, and five steps later at the latest the process has
  left the loop, cleaned up and exited with status 0. Only the loop test reads the flag:
  every other step does the same whatever the flag holds.
\<close>

theorem signal_stops_loop:
  assumes "length welcome_image = WIDTH * HEIGHT" and "pc (startup e) = LoopTest" and "sig t"
  shows "pc (run welcome_image sig (t + 5) (startup e)) = Exited 0
    \<and> (\<forall>k. length (drawn (run welcome_image sig (t + k) (startup e)))
            \<le> length (drawn (run welcome_image sig t (startup e))) + 1)
    \<and> (\<forall>s r. pc s \<noteq> LoopTest \<longrightarrow>
          step welcome_image (s\<lparr>running := r\<rparr>) = (step welcome_image s)\<lparr>running := r\<rparr>)"
proof (intro conjI allI impI)
  show "pc (run welcome_image sig (t + 5) (startup e)) = Exited 0"
    by (rule exits_after_signal [where sig = sig and t = t, OF assms])
  show "length (drawn (run welcome_image sig (t + k) (startup e)))
            \<le> length (drawn (run welcome_image sig t (startup e))) + 1" for k
  proof (cases k)
    case 0
    then show ?thesis by simp
  next
    case (Suc j)
    with after_signal [where sig = sig and t = t and k = j, OF assms] show ?thesis by simp
  qed
  show "step welcome_image (s\<lparr>running := r\<rparr>) = (step welcome_image s)\<lparr>running := r\<rparr>"
    if "pc s \<noteq> LoopTest" for s r
    using that by (rule step_ignores_flag)
qed

theorem signal_stops_loop_witness:
  "pc (run example_image (signal_at 9) (9 + 5) (startup example_env)) = Exited 0
   \<and> length (drawn (run example_image (signal_at 9) (9 + 4) (startup example_env)))
      \<le> length (drawn (run example_image (signal_at 9) 9 (startup example_env))) + 1
   \<and> pc (step example_image (startup example_env)) = Draw
   \<and> step example_image (signal_handler (step example_image (startup example_env)))
      = signal_handler (step example_image (step example_image (startup example_env)))"
proof -
  let ?s = "step example_image (startup example_env)"
  have s: "signal_at 9 9" by (simp add: signal_at_def)
  note stops = signal_stops_loop [where sig = "signal_at 9" and t = 9,
        OF example_image_length example_startup s]
  have "running (startup example_env) = 1"
    by (cases "hw_init example_env hw_initial") (simp add: startup_def)
  then have d: "pc ?s = Draw"
    using example_startup by (simp add: step_def)
  then have "pc ?s \<noteq> LoopTest" by simp
  with stops
  have "step example_image (?s\<lparr>running := 0\<rparr>) = (step example_image ?s)\<lparr>running := 0\<rparr>"
    by blast
  then have "step example_image (signal_handler ?s) = signal_handler (step example_image ?s)"
    by (simp only: signal_handler_def)
  with stops d show ?thesis by blast
qed

subsection \<open>Exit status\<close>

declare run.simps [simp del]

lemma run_Suc:
  "run img sig (Suc n) s =
     step img (if sig n then signal_handler (run img sig n s) else run img sig n s)"
  by (simp add: run.simps Let_def)

lemma run_0: "run img sig 0 s = s"
  by (simp add: run.simps)

lemma run_exited:
  "pc s = Exited x \<Longrightarrow> pc (run img sig n s) = Exited x"
  by (induction n) (simp_all add: run_0 run_Suc step_def signal_handler_def)

lemma startup_spi_failure:
  assumes "open_spi e < 0"
  shows "startup e =
     \<lparr>pc = Exited 1, running = 1, handles = hw_initial\<lparr>spi_fd := open_spi e\<rparr>,
      framebuf = replicate (WIDTH * HEIGHT) 0, pos = 0, dir = 1,
      trace = [Perror ''open spi'', Stderr (''Hardware init failed'' @ [CHR 0x0A])],
      drawn = [], ticks = 0\<rparr>"
  using assms by (simp add: startup_def hw_init_def hw_cleanup_def hw_initial_def Let_def)

lemma hw_init_fails_iff:
  "(fst (hw_init e hw_initial) < 0) =
     (open_spi e < 0 \<or> open_gpio e < 0 \<or> get_line_dc e = None \<or> get_line_rst e = None)"
  by (cases "get_line_dc e"; cases "get_line_rst e")
    (simp_all add: hw_init_def gpio_request_line_def hw_initial_def Let_def)

lemma no_signal_loops:
  assumes "length img = WIDTH * HEIGHT" and "pc (startup e) = LoopTest"
    and "\<forall>k < n. \<not> sig k"
  shows "running (run img sig n (startup e)) = 1 \<and>
    (pc (run img sig n (startup e)) = LoopTest \<or> pc (run img sig n (startup e)) = Draw \<or>
     pc (run img sig n (startup e)) = Advance \<or> pc (run img sig n (startup e)) = Sleep)"
  using assms(3)
proof (induction n)
  case 0
  show ?case
    using assms(2) by (cases e rule: startup_cases) (simp_all add: run_0)
next
  case (Suc n)
  let ?s = "run img sig n (startup e)"
  have IH: "running ?s = 1"
    "pc ?s = LoopTest \<or> pc ?s = Draw \<or> pc ?s = Advance \<or> pc ?s = Sleep"
    using Suc by simp_all
  have eq: "run img sig (Suc n) (startup e) = step img ?s"
    using Suc.prems by (simp add: run_Suc)
  have i: "loop_inv e ?s" by (rule inv_run [OF assms(1,2)])
  from draw_ok [OF assms(1) inv_pos_range(1,2) [OF i]]
  obtain fb where d: "draw_scanner img (pos ?s) scanner_width = Inr (fb, ssd1351_flush fb)"
    by blast
  show ?case
    unfolding eq using IH d
    by (cases "advance (pos ?s, dir ?s)") (auto simp add: step_def)
qed

lemma exit_status_of_run:
  assumes "length img = WIDTH * HEIGHT" and "pc (run img sig n (startup e)) = Exited status"
  shows "(status = 1 \<and> fst (hw_init e hw_initial) < 0)
     \<or> (status = 0 \<and> \<not> fst (hw_init e hw_initial) < 0 \<and> (\<exists>k < n. sig k))"
proof (cases "fst (hw_init e hw_initial) < 0")
  case True
  then have "pc (startup e) = Exited 1" by (simp add: startup_pc)
  then have "pc (run img sig n (startup e)) = Exited 1" by (rule run_exited)
  with assms(2) True show ?thesis by simp
next
  case False
  then have st: "pc (startup e) = LoopTest" by (simp add: startup_pc)
  have "loop_inv e (run img sig n (startup e))" by (rule inv_run [OF assms(1) st])
  with assms(2) have z: "status = 0" by (auto simp add: loop_inv_def)
  have "\<exists>k < n. sig k"
  proof (rule ccontr)
    assume "\<not> (\<exists>k < n. sig k)"
    then have "\<forall>k < n. \<not> sig k" by blast
    from no_signal_loops [OF assms(1) st this] assms(2) show False by auto
  qed
  with z False show ?thesis by blast
qed

text \<open>
  Claim C6. The process exits with status 1 exactly when \<^verbatim>\<open>hw_init\<close> fails (one of
  the two devices cannot be opened or one of the two lines is refused), before the
  loop, and with status 0 only after a signal; once a signal is delivered it does exit
  with status 0. When opening the SPI device fails, all it does is write the two
  diagnostics to standard error and exit with 1: the cleanup closes nothing, the GPIO
  chip and both lines never having been acquired.
\<close>

theorem exit_status:
  "pc (startup e) = (if fst (hw_init e hw_initial) < 0 then Exited 1 else LoopTest)
   \<and> (fst (hw_init e hw_initial) < 0) =
       (open_spi e < 0 \<or> open_gpio e < 0 \<or> get_line_dc e = None \<or> get_line_rst e = None)
   \<and> (open_spi e < 0 \<longrightarrow>
        pc (startup e) = Exited 1 \<and>
        trace (startup e) =
          [Perror ''open spi'', Stderr (''Hardware init failed'' @ [CHR 0x0A])] \<and>
        closes (trace (startup e)) = [])
   \<and> (length welcome_image = WIDTH * HEIGHT \<and> \<not> fst (hw_init e hw_initial) < 0 \<and> sig t \<longrightarrow>
        pc (run welcome_image sig (t + 5) (startup e)) = Exited 0)
   \<and> (length welcome_image = WIDTH * HEIGHT \<and>
        pc (run welcome_image sig n (startup e)) = Exited status \<longrightarrow>
          (status = 1 \<and> fst (hw_init e hw_initial) < 0)
          \<or> (status = 0 \<and> \<not> fst (hw_init e hw_initial) < 0 \<and> (\<exists>k < n. sig k)))"
proof (intro conjI impI)
  show "pc (startup e) = (if fst (hw_init e hw_initial) < 0 then Exited 1 else LoopTest)"
    by (rule startup_pc)
  show "(fst (hw_init e hw_initial) < 0) =
       (open_spi e < 0 \<or> open_gpio e < 0 \<or> get_line_dc e = None \<or> get_line_rst e = None)"
    by (rule hw_init_fails_iff)
  show "pc (startup e) = Exited 1" if "open_spi e < 0"
    using that by (simp add: startup_spi_failure)
  show "trace (startup e) =
      [Perror ''open spi'', Stderr (''Hardware init failed'' @ [CHR 0x0A])]"
    if "open_spi e < 0"
    using that by (simp add: startup_spi_failure)
  show "closes (trace (startup e)) = []" if "open_spi e < 0"
    using that by (simp add: startup_spi_failure)
  show "pc (run welcome_image sig (t + 5) (startup e)) = Exited 0"
    if "length welcome_image = WIDTH * HEIGHT \<and> \<not> fst (hw_init e hw_initial) < 0 \<and> sig t"
  proof -
    from that have "pc (startup e) = LoopTest" by (simp add: startup_pc)
    with that show ?thesis
      by (intro exits_after_signal [where sig = sig and t = t]) simp_all
  qed
  show "(status = 1 \<and> fst (hw_init e hw_initial) < 0)
          \<or> (status = 0 \<and> \<not> fst (hw_init e hw_initial) < 0 \<and> (\<exists>k < n. sig k))"
    if "length welcome_image = WIDTH * HEIGHT \<and>
        pc (run welcome_image sig n (startup e)) = Exited status"
    using that exit_status_of_run [of welcome_image sig n e status] by blast
qed

theorem exit_status_witness:
  "pc (startup example_env_no_spi) = Exited 1
   \<and> trace (startup example_env_no_spi)
     = [Perror ''open spi'', Stderr (''Hardware init failed'' @ [CHR 0x0A])]
   \<and> closes (trace (startup example_env_no_spi)) = []
   \<and> pc (run example_image (signal_at 9) (9 + 5) (startup example_env)) = Exited 0
   \<and> (\<exists>k < 9 + 5. signal_at 9 k)"
proof -
  have bad: "open_spi example_env_no_spi < 0" by (simp add: example_env_no_spi_def)
  have s: "signal_at 9 9" by (simp add: signal_at_def)
  have a: "pc (startup example_env_no_spi) = Exited 1 \<and>
      trace (startup example_env_no_spi)
        = [Perror ''open spi'', Stderr (''Hardware init failed'' @ [CHR 0x0A])] \<and>
      closes (trace (startup example_env_no_spi)) = []"
    using exit_status [of example_env_no_spi "[]" no_signal 0 0 0] bad by blast
  have b: "pc (run example_image (signal_at 9) (9 + 5) (startup example_env)) = Exited 0"
    using exit_status [of example_env example_image "signal_at 9" 9 0 0]
      example_env_ok example_image_length s by blast
  have c: "\<exists>k < 9 + 5. signal_at 9 k"
    using exit_status [of example_env example_image "signal_at 9" 9 "9 + 5" 0]
      example_image_length b by simp
  from a b c show ?thesis by blast
qed

subsection \<open>The positions drawn\<close>

lemma drawn_run:
  assumes "length img = WIDTH * HEIGHT" and "pc (startup e) = LoopTest"
  shows "drawn (run img sig n (startup e)) =
    map emitted [0..<length (drawn (run img sig n (startup e)))]"
proof -
  let ?s = "run img sig n (startup e)"
  have "loop_inv e ?s" by (rule inv_run [OF assms])
  then have d: "drawn ?s = map emitted [0..<(if pc ?s = Advance then ticks ?s + 1 else ticks ?s)]"
    by (simp add: loop_inv_def)
  then have "length (drawn ?s) = (if pc ?s = Advance then ticks ?s + 1 else ticks ?s)"
    by (metis diff_zero length_map length_upt)
  with d show ?thesis by simp
qed

lemma step_round:
  assumes "length img = WIDTH * HEIGHT" and "loop_inv e s" and "pc s = LoopTest"
    and "running s = 1"
  shows "pc (step img s) = Draw \<and> running (step img s) = 1 \<and> ticks (step img s) = ticks s"
    and "pc (step img (step img s)) = Advance \<and> running (step img (step img s)) = 1
      \<and> ticks (step img (step img s)) = ticks s"
    and "pc (step img (step img (step img s))) = Sleep
      \<and> running (step img (step img (step img s))) = 1
      \<and> ticks (step img (step img (step img s))) = ticks s + 1"
    and "pc (step img (step img (step img (step img s)))) = LoopTest
      \<and> running (step img (step img (step img (step img s)))) = 1
      \<and> ticks (step img (step img (step img (step img s)))) = ticks s + 1"
proof -
  let ?s1 = "step img s"
  let ?s2 = "step img ?s1"
  let ?s3 = "step img ?s2"
  show 1: "pc ?s1 = Draw \<and> running ?s1 = 1 \<and> ticks ?s1 = ticks s"
    using assms(3,4) by (simp add: step_def)
  have i1: "loop_inv e ?s1" by (rule inv_step [OF assms(1,2)])
  from draw_ok [OF assms(1) inv_pos_range(1,2) [OF i1]]
  obtain fb where d: "draw_scanner img (pos ?s1) scanner_width = Inr (fb, ssd1351_flush fb)"
    by blast
  have "step img ?s1 = ?s1\<lparr>pc := Advance, framebuf := fb,
      trace := trace ?s1 @ ssd1351_flush fb, drawn := drawn ?s1 @ [pos ?s1]\<rparr>"
    using 1 d by (simp add: step_def)
  then show 2: "pc ?s2 = Advance \<and> running ?s2 = 1 \<and> ticks ?s2 = ticks s"
    using 1 by simp
  show 3: "pc ?s3 = Sleep \<and> running ?s3 = 1 \<and> ticks ?s3 = ticks s + 1"
    using 2 by (cases "advance (pos ?s2, dir ?s2)") (simp add: step_def)
  show "pc (step img ?s3) = LoopTest \<and> running (step img ?s3) = 1
      \<and> ticks (step img ?s3) = ticks s + 1"
    using 3 by (simp add: step_def)
qed

lemma run_rounds:
  assumes "length img = WIDTH * HEIGHT" and "pc (startup e) = LoopTest"
    and "\<forall>k < 4 * m. \<not> sig k"
  shows "pc (run img sig (4 * m) (startup e)) = LoopTest
    \<and> running (run img sig (4 * m) (startup e)) = 1
    \<and> ticks (run img sig (4 * m) (startup e)) = m"
  using assms(3)
proof (induction m)
  case 0
  show ?case
    using assms(2) by (cases e rule: startup_cases) (simp_all add: run_0)
next
  case (Suc m)
  let ?s = "run img sig (4 * m) (startup e)"
  have IH: "pc ?s = LoopTest \<and> running ?s = 1 \<and> ticks ?s = m"
    using Suc by simp
  have i: "loop_inv e ?s" by (rule inv_run [OF assms(1,2)])
  have ns: "\<not> sig (4 * m)" "\<not> sig (Suc (4 * m))" "\<not> sig (Suc (Suc (4 * m)))"
    "\<not> sig (Suc (Suc (Suc (4 * m))))"
    using Suc.prems by simp_all
  have "4 * Suc m = Suc (Suc (Suc (Suc (4 * m))))" by simp
  then have "run img sig (4 * Suc m) (startup e) = step img (step img (step img (step img ?s)))"
    using ns by (simp only: run_Suc if_False)
  then show ?case
    using step_round(4) [OF assms(1) i] IH by simp
qed

lemma first_frames:
  assumes "length img = WIDTH * HEIGHT" and "pc (startup e) = LoopTest"
    and "\<forall>k < 4 * m + 2. \<not> sig k"
  shows "drawn (run img sig (4 * m + 2) (startup e)) = map emitted [0..<m + 1]"
proof -
  let ?s = "run img sig (4 * m) (startup e)"
  have r: "pc ?s = LoopTest \<and> running ?s = 1 \<and> ticks ?s = m"
    using assms(3) by (intro run_rounds [OF assms(1,2)]) simp
  have i: "loop_inv e ?s" by (rule inv_run [OF assms(1,2)])
  have ns: "\<not> sig (4 * m)" "\<not> sig (Suc (4 * m))"
    using assms(3) by simp_all
  have "4 * m + 2 = Suc (Suc (4 * m))" by simp
  then have eq: "run img sig (4 * m + 2) (startup e) = step img (step img ?s)"
    using ns by (simp only: run_Suc if_False)
  have "loop_inv e (run img sig (4 * m + 2) (startup e))" by (rule inv_run [OF assms(1,2)])
  then show ?thesis
    unfolding eq using step_round(2) [OF assms(1) i] r by (simp add: loop_inv_def)
qed

text \<open>
  Claim C4, as the code has it. The first frame is drawn at 0. Every later frame is on
  the triangle wave of period 54 between 10 and 118: the first update takes 0 to 10,
  the position then goes up by 4 per frame until it reaches 118, where the direction
  flips to \<open>-1\<close>, then down by 4 per frame until it reaches 10, where the direction flips
  to \<open>+1\<close>, and so on. The flip happens when the new position reaches the bound (the
  comparisons are \<^verbatim>\<open>>=\<close> and \<^verbatim>\<open><=\<close>), so each bound is drawn once per turn. These are
  the positions the process draws, in order.
\<close>

theorem emitted_triangle_wave:
  "emitted 0 = 0
   \<and> emitted (Suc k) = (if k mod 54 \<le> 27 then 10 + 4 * int (k mod 54)
                         else 226 - 4 * int (k mod 54))
   \<and> snd ((advance ^^ Suc k) (0, 1)) = (if k mod 54 \<le> 26 then 1 else - 1)
   \<and> (k mod 54 \<le> 26 \<longrightarrow> emitted (Suc (Suc k)) = emitted (Suc k) + 4)
   \<and> (27 \<le> k mod 54 \<longrightarrow> emitted (Suc (Suc k)) = emitted (Suc k) - 4)
   \<and> 10 \<le> emitted (Suc k) \<and> emitted (Suc k) \<le> 118
   \<and> (length welcome_image = WIDTH * HEIGHT \<and> pc (startup e) = LoopTest \<longrightarrow>
        drawn (run welcome_image sig n (startup e)) =
          map emitted [0..<length (drawn (run welcome_image sig n (startup e)))])"
proof -
  have j: "k mod 54 < 54" by simp
  have a: "emitted (Suc k) = (if k mod 54 \<le> 27 then 10 + 4 * int (k mod 54)
                         else 226 - 4 * int (k mod 54))"
    unfolding emitted_Suc by (simp add: wave_def)
  have b: "snd ((advance ^^ Suc k) (0, 1)) = (if k mod 54 \<le> 26 then 1 else - 1)"
    unfolding funpow_advance by (simp add: wave_def)
  have c: "emitted (Suc (Suc k)) = emitted (Suc k) + 4" if "k mod 54 \<le> 26"
    unfolding emitted_Suc mod54_Suc using that by (simp add: wave_def)
  have d: "emitted (Suc (Suc k)) = emitted (Suc k) - 4" if "27 \<le> k mod 54"
    unfolding emitted_Suc mod54_Suc using that j by (auto simp add: wave_def)
  have r: "10 \<le> emitted (Suc k) \<and> emitted (Suc k) \<le> 118"
    unfolding emitted_Suc using wave_range [OF j] by simp
  show ?thesis
    using emitted_0 a b c d r drawn_run [of welcome_image e sig n] by blast
qed

theorem emitted_triangle_wave_witness:
  "emitted 1 = 10 \<and> emitted 2 = emitted 1 + 4
   \<and> emitted 28 = 118 \<and> emitted 29 = emitted 28 - 4
   \<and> emitted 55 = 10
   \<and> drawn (run example_image no_signal 6 (startup example_env)) = [emitted 0, emitted 1]"
proof -
  let ?s = "run example_image no_signal 6 (startup example_env)"
  have "emitted 1 = 10" "emitted 2 = emitted 1 + 4"
    using emitted_triangle_wave [of 0] by (simp_all add: numeral_2_eq_2)
  moreover have "emitted (Suc 27) = 118" "emitted (Suc (Suc 27)) = emitted (Suc 27) - 4"
    using emitted_triangle_wave [of 27] by simp_all
  moreover have "emitted (Suc 54) = 10" using emitted_triangle_wave [of 54] by simp
  moreover have "drawn ?s = [emitted 0, emitted 1]"
  proof -
    have "\<forall>k < 4 * 1 + 2. \<not> no_signal k" by (simp add: no_signal_def)
    from first_frames [OF example_image_length example_startup this]
    have "length (drawn ?s) = 2" by simp
    moreover have "drawn ?s = map emitted [0..<length (drawn ?s)]"
      using emitted_triangle_wave [of 0 example_image example_env no_signal 6]
        example_image_length example_startup by blast
    ultimately have "drawn ?s = map emitted [0..<2]" by simp
    then show ?thesis by (simp add: upt_rec)
  qed
  ultimately show ?thesis by simp
qed

text \<open>
  Where the wording of claim C4 and the code part. At position 114 moving up, the new
  position 118 does not exceed 118, and the code flips the direction all the same;
  under the specification's wording the direction would flip one frame later. The
  29th update shows it: the code draws 114 next, the specification's rule 118 again.
\<close>

theorem emitted_not_spec_wave:
  "advance (114, 1) = (118, - 1)
   \<and> \<not> (114 + 1 * 4 > (118::int))
   \<and> spec_advance (114, 1) = (118, 1)
   \<and> emitted 28 = 118 \<and> spec_emitted 28 = 118
   \<and> emitted 29 = 114 \<and> spec_emitted 29 = 118"
proof -
  have "emitted (Suc 27) = 118" "emitted (Suc 28) = 114"
    unfolding emitted_Suc by (simp_all add: wave_def)
  moreover have "spec_emitted 28 = 118" "spec_emitted 29 = 118"
    by (simp_all add: spec_emitted_def eval_nat_numeral)
  ultimately show ?thesis by (simp add: advance_simp)
qed

text \<open>
  Claim C7, as the code has it. In every state the process reaches, the animation state
  is the initial state \<open>(0, 1)\<close> updated once per completed round; the direction is 1
  or \<open>-1\<close>; the position is 0 until the first update, and within \<open>[10, 118]\<close> from then
  on; and the number of frames drawn is the number of updates, plus one between a
  frame and its update.
\<close>

theorem animation_state_invariant:
  assumes "length welcome_image = WIDTH * HEIGHT" and "pc (startup e) = LoopTest"
  shows "(pos (run welcome_image sig n (startup e)), dir (run welcome_image sig n (startup e)))
       = (advance ^^ ticks (run welcome_image sig n (startup e))) (0, 1)
    \<and> (dir (run welcome_image sig n (startup e)) = 1
        \<or> dir (run welcome_image sig n (startup e)) = - 1)
    \<and> (if ticks (run welcome_image sig n (startup e)) = 0
        then pos (run welcome_image sig n (startup e)) = 0
        else 10 \<le> pos (run welcome_image sig n (startup e))
           \<and> pos (run welcome_image sig n (startup e)) \<le> 118)
    \<and> length (drawn (run welcome_image sig n (startup e)))
        = (if pc (run welcome_image sig n (startup e)) = Advance
           then ticks (run welcome_image sig n (startup e)) + 1
           else ticks (run welcome_image sig n (startup e)))"
proof -
  let ?s = "run welcome_image sig n (startup e)"
  have i: "loop_inv e ?s" by (rule inv_run [OF assms])
  then have pd: "(pos ?s, dir ?s) = (advance ^^ ticks ?s) (0, 1)"
    by (simp add: loop_inv_def)
  have d: "drawn ?s = map emitted [0..<(if pc ?s = Advance then ticks ?s + 1 else ticks ?s)]"
    using i by (simp add: loop_inv_def)
  have len: "length (drawn ?s) = (if pc ?s = Advance then ticks ?s + 1 else ticks ?s)"
    by (subst d) simp
  have rng: "if ticks ?s = 0 then pos ?s = 0 else 10 \<le> pos ?s \<and> pos ?s \<le> 118"
  proof (cases "ticks ?s")
    case 0
    with pd show ?thesis by simp
  next
    case (Suc k)
    have "k mod 54 < 54" by simp
    from wave_range(1,2) [OF this] pd show ?thesis
      unfolding Suc funpow_advance by (metis fst_conv nat.distinct(1))
  qed
  show ?thesis
    using pd inv_pos_range(3) [OF i] rng len by blast
qed

theorem animation_state_invariant_witness:
  "pos (run example_image no_signal 4 (startup example_env)) = 10
   \<and> dir (run example_image no_signal 4 (startup example_env)) = 1
   \<and> ticks (run example_image no_signal 4 (startup example_env)) = 1"
proof -
  let ?s = "run example_image no_signal 4 (startup example_env)"
  have "\<forall>k < 4 * 1. \<not> no_signal k" by (simp add: no_signal_def)
  from run_rounds [OF example_image_length example_startup this]
  have t: "ticks ?s = 1" by simp
  have "(pos ?s, dir ?s) = (advance ^^ ticks ?s) (0, 1)"
    using animation_state_invariant [OF example_image_length example_startup] by blast
  then have "(pos ?s, dir ?s) = (10, 1)"
    unfolding t by (simp add: advance_simp)
  with t show ?thesis by simp
qed

text \<open>
  The first frame is composed at position 0, which is not within \<open>[10, 118]\<close>: claim
  C7 as the specification words it fails there.
\<close>

theorem first_frame_at_zero:
  "drawn (run example_image no_signal 2 (startup example_env)) = [0]
   \<and> \<not> (10 \<le> (0::int))"
proof -
  have "\<forall>k < 4 * 0 + 2. \<not> no_signal k" by (simp add: no_signal_def)
  from first_frames [OF example_image_length example_startup this]
  have "drawn (run example_image no_signal (4 * 0 + 2) (startup example_env)) = [emitted 0]"
    by simp
  moreover have "(4::nat) * 0 + 2 = 2" by simp
  ultimately show ?thesis by (simp only: emitted_0) simp
qed

subsection \<open>Cleanup of the handles\<close>

lemma cleanup_after_init:
  assumes "line_fds_positive e"
  shows "count_list (closes (snd (hw_cleanup (fst (snd (hw_init e hw_initial)))))) fd
    = count_list (acquired e) fd"
proof (cases "open_spi e < 0")
  case True
  then show ?thesis
    by (simp add: hw_init_def hw_cleanup_def hw_initial_def acquired_def Let_def)
next
  case spi: False
  show ?thesis
  proof (cases "open_gpio e < 0")
    case True
    with spi show ?thesis
      by (simp add: hw_init_def hw_cleanup_def hw_initial_def acquired_def Let_def)
  next
    case gpio: False
    show ?thesis
    proof (cases "get_line_dc e")
      case None
      with spi gpio show ?thesis
        by (simp add: hw_init_def hw_cleanup_def hw_initial_def acquired_def Let_def
            gpio_request_line_def)
    next
      case dc: (Some d)
      then have dpos: "0 < d" using assms by (simp add: line_fds_positive_def)
      show ?thesis
      proof (cases "get_line_rst e")
        case None
        with spi gpio dc dpos show ?thesis
          by (simp add: hw_init_def hw_cleanup_def hw_initial_def acquired_def Let_def
              gpio_request_line_def)
      next
        case (Some r)
        then have "0 < r" using assms by (simp add: line_fds_positive_def)
        with Some spi gpio dc dpos show ?thesis
          by (simp add: hw_init_def hw_cleanup_def hw_initial_def acquired_def Let_def
              gpio_request_line_def)
      qed
    qed
  qed
qed

lemma startup_failure_trace:
  assumes "fst (hw_init e hw_initial) < 0"
  shows "closes (trace (startup e)) =
    closes (snd (hw_cleanup (fst (snd (hw_init e hw_initial)))))"
proof -
  obtain rc h evs where h: "hw_init e hw_initial = (rc, h, evs)"
    by (cases "hw_init e hw_initial") auto
  have "closes evs = []" using h by (rule hw_init_events_no_close)
  with h assms show ?thesis by (simp add: startup_def closes_append)
qed

lemma exited_trace:
  assumes "length img = WIDTH * HEIGHT" and "pc (run img sig n (startup e)) = Exited 0"
  shows "closes (trace (run img sig n (startup e))) =
    closes (snd (hw_cleanup (fst (snd (hw_init e hw_initial)))))"
proof (cases e rule: startup_cases)
  case (failed rc h evs)
  then have "pc (run img sig n (startup e)) = Exited 1" by (intro run_exited)
  with assms(2) show ?thesis by simp
next
  case (ok rc h evs)
  then have st: "pc (startup e) = LoopTest" by simp
  have "loop_inv e (run img sig n (startup e))" by (rule inv_run [OF assms(1) st])
  with assms(2) ok show ?thesis by (simp add: loop_inv_def)
qed

text \<open>
  Claim C8, as the code has it. After \<^verbatim>\<open>hw_init\<close>, whether it succeeded or stopped at
  any of its four acquisitions, one \<^verbatim>\<open>hw_cleanup\<close> closes every handle acquired exactly
  once and no other descriptor: a handle never acquired keeps its initial value, which
  the guards let pass. \<^verbatim>\<open>hw_cleanup\<close> does not change the handles. On both ways out of
  \<^verbatim>\<open>main\<close> it has run exactly once when the process exits.
\<close>

theorem cleanup_closes_acquired:
  assumes "line_fds_positive e"
  shows "count_list (closes (snd (hw_cleanup (fst (snd (hw_init e hw_initial)))))) fd
        = count_list (acquired e) fd
    \<and> fst (hw_cleanup h) = h
    \<and> (fst (hw_init e hw_initial) < 0 \<longrightarrow>
        count_list (closes (trace (startup e))) fd = count_list (acquired e) fd)
    \<and> (length welcome_image = WIDTH * HEIGHT
         \<and> pc (run welcome_image sig n (startup e)) = Exited 0 \<longrightarrow>
        count_list (closes (trace (run welcome_image sig n (startup e)))) fd
          = count_list (acquired e) fd)"
proof (intro conjI impI)
  show "count_list (closes (snd (hw_cleanup (fst (snd (hw_init e hw_initial)))))) fd
        = count_list (acquired e) fd"
    using assms by (rule cleanup_after_init)
  show "fst (hw_cleanup h) = h" by (simp add: hw_cleanup_def)
  show "count_list (closes (trace (startup e))) fd = count_list (acquired e) fd"
    if "fst (hw_init e hw_initial) < 0"
    using that assms by (simp add: startup_failure_trace cleanup_after_init)
  show "count_list (closes (trace (run welcome_image sig n (startup e)))) fd
          = count_list (acquired e) fd"
    if "length welcome_image = WIDTH * HEIGHT
         \<and> pc (run welcome_image sig n (startup e)) = Exited 0"
    using that assms by (simp add: exited_trace cleanup_after_init)
qed

theorem cleanup_closes_acquired_witness:
  "count_list (closes (trace (startup example_env_no_rst))) 5 = 1
   \<and> count_list (closes (trace (startup example_env_no_rst))) 6 = 0
   \<and> count_list
        (closes (trace (run example_image (signal_at 9) (9 + 5) (startup example_env)))) 6 = 1"
proof -
  have p1: "line_fds_positive example_env_no_rst"
    by (simp add: line_fds_positive_def example_env_no_rst_def)
  have f1: "fst (hw_init example_env_no_rst hw_initial) < 0"
    by (simp add: example_env_no_rst_def hw_init_def gpio_request_line_def hw_initial_def Let_def)
  have a1: "acquired example_env_no_rst = [3, 4, 5]"
    by (simp add: acquired_def example_env_no_rst_def)
  have p2: "line_fds_positive example_env"
    by (simp add: line_fds_positive_def example_env_def)
  have a2: "acquired example_env = [3, 4, 5, 6]"
    by (simp add: acquired_def example_env_def)
  have "signal_at 9 9" by (simp add: signal_at_def)
  then have x: "pc (run example_image (signal_at 9) (9 + 5) (startup example_env)) = Exited 0"
    by (intro exits_after_signal [where sig = "signal_at 9" and t = 9]
        example_image_length example_startup)
  have "count_list (closes (trace (startup example_env_no_rst))) 5 = 1"
    using cleanup_closes_acquired [OF p1, of 5] f1 a1 by simp
  moreover have "count_list (closes (trace (startup example_env_no_rst))) 6 = 0"
    using cleanup_closes_acquired [OF p1, of 6] f1 a1 by simp
  moreover have "count_list
      (closes (trace (run example_image (signal_at 9) (9 + 5) (startup example_env)))) 6 = 1"
    using cleanup_closes_acquired [OF p2, of 6 _ example_image "signal_at 9" "9 + 5"]
      x example_image_length a2 by simp
  ultimately show ?thesis by blast
qed

text \<open>
  \<^verbatim>\<open>hw_cleanup\<close> is not idempotent: it keeps no record of what it closed, and a second
  call after a complete cleanup closes the same four descriptors again.
\<close>

theorem cleanup_not_idempotent:
  "snd (hw_cleanup (fst (hw_cleanup \<lparr>spi_fd = 3, gpio_fd = 4, dc_req_fd = 5, rst_req_fd = 6\<rparr>)))
     = [Close 5, Close 6, Close 4, Close 3]"
  by (simp add: hw_cleanup_def)

subsection \<open>Division by zero\<close>

lemma scanner_color_no_div0: "scanner_color x c w \<noteq> Inl DivByZero"
  by (auto simp add: scanner_color_def and_then_def c_int_def c_abs_def c_div_def
      split: sum.splits if_splits)

lemma columns_loop_no_div0: "columns_loop x c w fb \<noteq> Inl DivByZero"
proof (induction x c w fb rule: columns_loop.induct)
  case (1 x c w fb)
  show ?case
  proof (cases "x < WIDTH")
    case True
    show ?thesis
    proof (cases "scanner_color (int x) c w")
      case (Inl f)
      with scanner_color_no_div0 [of "int x" c w] have "f \<noteq> DivByZero" by auto
      with True Inl show ?thesis
        by (subst columns_loop.simps) (simp add: and_then_def)
    next
      case (Inr color)
      with True "1.IH" [of color] show ?thesis
        by (subst columns_loop.simps) (simp add: and_then_def)
    qed
  next
    case False
    then show ?thesis by (subst columns_loop.simps) simp
  qed
qed

lemma draw_scanner_no_div0: "draw_scanner img p w \<noteq> Inl DivByZero"
  using columns_loop_no_div0 [of 0 p w "take (WIDTH * HEIGHT) img"]
  by (auto simp add: draw_scanner_def and_then_def Let_def split: sum.splits)

lemma step_no_div0:
  "pc s \<noteq> Crashed DivByZero \<Longrightarrow> pc (step img s) \<noteq> Crashed DivByZero"
  using draw_scanner_no_div0 [of img "pos s" scanner_width]
  by (cases "pc s") (auto simp add: step_def split: sum.splits prod.splits)

lemma run_no_div0: "pc (run img sig n (startup e)) \<noteq> Crashed DivByZero"
proof (induction n)
  case 0
  show ?case by (simp add: run_0 startup_pc)
next
  case (Suc n)
  then have "pc (if sig n then signal_handler (run img sig n (startup e))
      else run img sig n (startup e)) \<noteq> Crashed DivByZero"
    by (simp add: signal_handler_def)
  then show ?case
    unfolding run_Suc by (rule step_no_div0)
qed

lemma run_never_crashes:
  assumes "length img = WIDTH * HEIGHT"
  shows "pc (run img sig n (startup e)) \<noteq> Crashed f"
proof (cases "fst (hw_init e hw_initial) < 0")
  case True
  then have "pc (startup e) = Exited 1" by (simp add: startup_pc)
  then have "pc (run img sig n (startup e)) = Exited 1" by (rule run_exited)
  then show ?thesis by simp
next
  case False
  then have st: "pc (startup e) = LoopTest" by (simp add: startup_pc)
  have "loop_inv e (run img sig n (startup e))" by (rule inv_run [OF assms st])
  then show ?thesis by (auto simp add: loop_inv_def)
qed

lemma draw_scanner_any_width:
  assumes "length img = WIDTH * HEIGHT" and "\<bar>center\<bar> \<le> 16777216"
  shows "\<exists>fb. draw_scanner img center w = Inr (fb, ssd1351_flush fb)
     \<and> length fb = WIDTH * HEIGHT
     \<and> (w \<le> 0 \<longrightarrow>
          (\<forall>x y. x < 128 \<and> y < 128 \<longrightarrow>
             fb ! (y * 128 + x) = (if y < 124 then img ! (y * 128 + x) else COL_BLACK)))"
proof -
  from draw_scanner_frame [OF assms, of w]
  obtain fb where r: "draw_scanner img center w = Inr (fb, ssd1351_flush fb)"
    and l: "length fb = WIDTH * HEIGHT"
    and n: "\<And>i. i < WIDTH * HEIGHT \<Longrightarrow> fb ! i =
          (if HEIGHT - 4 \<le> i div WIDTH
           then (if \<bar>int (i mod WIDTH) - center\<bar> < w
                 then word_of_int (max 8 (31 - \<bar>int (i mod WIDTH) - center\<bar> * 31 div w)) AND 0x1F
                 else COL_BLACK)
           else img ! i)"
    by blast
  have "fb ! (y * 128 + x) = (if y < 124 then img ! (y * 128 + x) else COL_BLACK)"
    if "w \<le> 0" and "x < 128" and "y < 128" for x y :: nat
  proof -
    have i: "y * 128 + x < WIDTH * HEIGHT"
      using idx_lt [of x 128 y 128] that by (simp add: WIDTH_def HEIGHT_def)
    have dm: "(y * 128 + x) div WIDTH = y" "(y * 128 + x) mod WIDTH = x"
      using that by (simp_all add: WIDTH_def)
    have "\<not> \<bar>int x - center\<bar> < w" using that(1) by linarith
    then show ?thesis
      using n [OF i] unfolding dm by (simp add: HEIGHT_def)
  qed
  with r l show ?thesis by blast
qed

text \<open>
  Claim C10, as the code has it. \<^verbatim>\<open>draw_scanner\<close> never divides by zero, whatever the
  position and the scanner width: the division stands under the guard
  \<^verbatim>\<open>dist < scanner_width\<close> with \<open>dist \<ge> 0\<close>, so it is reached only with a positive width.
  For every position of magnitude at most \<open>2^24\<close> (the process passes 0..118 only)
  composition is defined for every scanner width, positive or not, and a width that is
  not positive leaves rows 0..123 as the background and the band all black. The width
  \<^verbatim>\<open>main\<close> passes is the constant 20, and no run of the process stops on a division by
  zero or on any other undefined arithmetic.
\<close>

theorem no_division_by_zero:
  "draw_scanner welcome_image center w \<noteq> Inl DivByZero
   \<and> pc (run welcome_image sig n (startup e)) \<noteq> Crashed DivByZero
   \<and> scanner_width = 20
   \<and> (length welcome_image = WIDTH * HEIGHT \<and> \<bar>center\<bar> \<le> 16777216 \<longrightarrow>
        (\<exists>fb. draw_scanner welcome_image center w = Inr (fb, ssd1351_flush fb)
           \<and> length fb = WIDTH * HEIGHT
           \<and> (w \<le> 0 \<longrightarrow>
                (\<forall>x y. x < 128 \<and> y < 128 \<longrightarrow>
                   fb ! (y * 128 + x) =
                     (if y < 124 then welcome_image ! (y * 128 + x) else COL_BLACK)))))
   \<and> (length welcome_image = WIDTH * HEIGHT \<longrightarrow>
        pc (run welcome_image sig n (startup e)) \<noteq> Crashed f)"
proof (intro conjI impI)
  show "draw_scanner welcome_image center w \<noteq> Inl DivByZero"
    by (rule draw_scanner_no_div0)
  show "pc (run welcome_image sig n (startup e)) \<noteq> Crashed DivByZero"
    by (rule run_no_div0)
  show "scanner_width = 20" by (simp add: scanner_width_def)
  show "\<exists>fb. draw_scanner welcome_image center w = Inr (fb, ssd1351_flush fb)
           \<and> length fb = WIDTH * HEIGHT
           \<and> (w \<le> 0 \<longrightarrow>
                (\<forall>x y. x < 128 \<and> y < 128 \<longrightarrow>
                   fb ! (y * 128 + x) =
                     (if y < 124 then welcome_image ! (y * 128 + x) else COL_BLACK)))"
    if "length welcome_image = WIDTH * HEIGHT \<and> \<bar>center\<bar> \<le> 16777216"
    using that by (intro draw_scanner_any_width) simp_all
  show "pc (run welcome_image sig n (startup e)) \<noteq> Crashed f"
    if "length welcome_image = WIDTH * HEIGHT"
    using that by (rule run_never_crashes)
qed

theorem no_division_by_zero_witness:
  "\<exists>fb. draw_scanner example_image 64 0 = Inr (fb, ssd1351_flush fb)
     \<and> fb ! (127 * 128 + 64) = COL_BLACK
     \<and> fb ! (3 * 128 + 64) = 0xFFFF
     \<and> pc (run example_image no_signal 2 (startup example_env)) \<noteq> Crashed IntOverflow"
proof -
  have c: "\<bar>64 :: int\<bar> \<le> 16777216" by simp
  note inst = no_division_by_zero
    [of example_image 64 0 no_signal 2 example_env IntOverflow]
  from inst example_image_length c
  obtain fb where r: "draw_scanner example_image 64 0 = Inr (fb, ssd1351_flush fb)"
    and n: "\<And>x y. x < 128 \<and> y < 128 \<longrightarrow>
        fb ! (y * 128 + x) = (if y < 124 then example_image ! (y * 128 + x) else COL_BLACK)"
    by auto
  have "fb ! (127 * 128 + 64) = COL_BLACK" using n [of 64 127] by simp
  moreover have "fb ! (3 * 128 + 64) = 0xFFFF"
    using n [of 64 3] by (simp add: example_image_def WIDTH_def HEIGHT_def)
  moreover have "pc (run example_image no_signal 2 (startup example_env)) \<noteq> Crashed IntOverflow"
    using inst example_image_length by blast
  ultimately show ?thesis using r by blast
qed

text \<open>
  Composition is defined for a scanner width that is not positive: with width 0 no
  column satisfies the guard, the band is black and nothing is divided.
\<close>

theorem width_zero_is_defined:
  "\<not> isl (draw_scanner example_image 64 0) \<and> \<not> (0 < (0::int))"
proof -
  have "\<bar>64 :: int\<bar> \<le> 16777216" by simp
  from draw_scanner_frame [OF example_image_length this, of 0]
  show ?thesis by auto
qed

end
